theory Spec2Isabelle
  imports Complex_Main "HOL-Library.AList"
begin

section \<open>Errors\<close>

text \<open>
  The exceptions the Python code can raise, as values.  Floating point numbers
  are modelled as real numbers; the kernel density estimate, whose divisions
  can be by zero, extends them by the infinities and NaN.
  \<open>GraphTopologyError\<close> and
  \<open>ConfigurationError\<close> are the two error classes the specification names;
  no code path of the repository constructs them.
\<close>

datatype error =
    IndexError
  | KeyError
  | ValueError
  | NodeNotFound
  | NetworkXError
  | GraphTopologyError
  | ConfigurationError

text \<open>Running a fallible function over a list stops at the first error.\<close>

fun traverse :: "('a \<Rightarrow> error + 'b) \<Rightarrow> 'a list \<Rightarrow> error + 'b list" where
  "traverse f [] = Inr []"
| "traverse f (x # xs) =
     (case f x of
        Inl e \<Rightarrow> Inl e
      | Inr y \<Rightarrow> (case traverse f xs of Inl e \<Rightarrow> Inl e | Inr ys \<Rightarrow> Inr (y # ys)))"

section \<open>core.py: the scaled likelihood\<close>

text \<open>\<open>np.max\<close> over all the entries of an array; it raises on an empty array.\<close>

definition np_max :: "real list \<Rightarrow> error + real" where
  "np_max xs = (case xs of [] \<Rightarrow> Inl ValueError | x # ys \<Rightarrow> Inr (fold max ys x))"

text \<open>
  \<open>scaled_likelihood\<close> is a decorator: it takes the log likelihood function and
  returns the decorated function.  The array is two dimensional (a list of
  rows); the maximum is taken over the flattened array.
\<close>

definition scaled_likelihood ::
    "('a \<Rightarrow> error + real list list) \<Rightarrow> 'a \<Rightarrow> error + real list list" where
  "scaled_likelihood log_likelihood_func args =
     (case log_likelihood_func args of
        Inl e \<Rightarrow> Inl e
      | Inr log_likelihood \<Rightarrow>
          (case np_max (concat log_likelihood) of
             Inl e \<Rightarrow> Inl e
           | Inr m \<Rightarrow> Inr (map (map (\<lambda>x. exp (x - m))) log_likelihood)))"

section \<open>The multiunit kernel density estimate\<close>

text \<open>
  The per-channel kernel divides by the bandwidth, and in the compiled loop a
  float64 division by zero raises nothing: it gives an infinity or NaN.  The
  values of the kernel density estimate are therefore the real numbers
  extended by the two infinities and NaN, with the IEEE 754 rules for them.
  Rounding, overflow and the sign of zero are not modelled: a number other
  than zero divided by zero is the infinity with the sign of the number.
\<close>

datatype float = Fin real | PInf | NInf | NaN

fun fneg :: "float \<Rightarrow> float" where
  "fneg (Fin x) = Fin (- x)"
| "fneg PInf = NInf"
| "fneg NInf = PInf"
| "fneg NaN = NaN"

fun fadd :: "float \<Rightarrow> float \<Rightarrow> float" where
  "fadd (Fin x) (Fin y) = Fin (x + y)"
| "fadd (Fin x) PInf = PInf"
| "fadd (Fin x) NInf = NInf"
| "fadd PInf (Fin y) = PInf"
| "fadd NInf (Fin y) = NInf"
| "fadd PInf PInf = PInf"
| "fadd NInf NInf = NInf"
| "fadd x y = NaN"

definition fsub :: "float \<Rightarrow> float \<Rightarrow> float" where
  "fsub x y = fadd x (fneg y)"

fun fmul :: "float \<Rightarrow> float \<Rightarrow> float" where
  "fmul (Fin x) (Fin y) = Fin (x * y)"
| "fmul (Fin x) PInf = (if x = 0 then NaN else if 0 < x then PInf else NInf)"
| "fmul (Fin x) NInf = (if x = 0 then NaN else if 0 < x then NInf else PInf)"
| "fmul PInf (Fin y) = (if y = 0 then NaN else if 0 < y then PInf else NInf)"
| "fmul NInf (Fin y) = (if y = 0 then NaN else if 0 < y then NInf else PInf)"
| "fmul PInf PInf = PInf"
| "fmul PInf NInf = NInf"
| "fmul NInf PInf = NInf"
| "fmul NInf NInf = PInf"
| "fmul x y = NaN"

fun fdiv :: "float \<Rightarrow> float \<Rightarrow> float" where
  "fdiv (Fin x) (Fin y) =
     (if y = 0 then (if x = 0 then NaN else if 0 < x then PInf else NInf) else Fin (x / y))"
| "fdiv (Fin x) PInf = Fin 0"
| "fdiv (Fin x) NInf = Fin 0"
| "fdiv PInf (Fin y) = (if 0 \<le> y then PInf else NInf)"
| "fdiv NInf (Fin y) = (if 0 \<le> y then NInf else PInf)"
| "fdiv x y = NaN"

fun fexp :: "float \<Rightarrow> float" where
  "fexp (Fin x) = Fin (exp x)"
| "fexp PInf = PInf"
| "fexp NInf = Fin 0"
| "fexp NaN = NaN"

definition SQRT_2PI :: real where
  "SQRT_2PI = sqrt (2 * pi)"

text \<open>
  One factor of the product kernel, the right hand side of the in-place
  multiplication in \<open>numba_product\<close>; \<open>x**2\<close> is \<open>x * x\<close>.
\<close>

definition kernel_factor :: "float \<Rightarrow> float \<Rightarrow> float \<Rightarrow> float" where
  "kernel_factor eval_point_k sample bandwidth =
     (let z = fdiv (fsub eval_point_k sample) bandwidth
      in fdiv (fdiv (fexp (fmul (Fin (- 0.5)) (fmul z z))) (fmul bandwidth (Fin SQRT_2PI)))
              bandwidth)"

text \<open>
  numba compiles an array read without a bounds check.  A read past the end
  of \<open>eval_point\<close> or \<open>bandwidths\<close> raises nothing and gives whatever the
  memory holds there, which is left unspecified.
\<close>

definition load :: "real list \<Rightarrow> nat \<Rightarrow> float" where
  "load a k = (if k < length a then Fin (a ! k) else undefined)"

text \<open>
  The inner loop over \<open>k\<close> for one training sample \<open>j\<close>, over the columns of
  the row \<open>samples[j, :]\<close>; the accumulator is \<open>product_kernel[j]\<close>, which
  starts at 1.
\<close>

definition product_loop :: "real list \<Rightarrow> real list \<Rightarrow> real list \<Rightarrow> float" where
  "product_loop eval_point row bandwidths =
     fold (\<lambda>k acc. fmul acc
             (kernel_factor (load eval_point k) (Fin (row ! k)) (load bandwidths k)))
       [0..<length row] (Fin 1)"

definition numba_product :: "real list \<Rightarrow> real list list \<Rightarrow> real list \<Rightarrow> float list" where
  "numba_product eval_point samples bandwidths =
     map (\<lambda>row. product_loop eval_point row bandwidths) samples"

text \<open>The vector-matrix product \<open>v @ M\<close>; \<open>n_bins\<close> is \<open>M.shape[1]\<close>.\<close>

definition vecmat :: "float list \<Rightarrow> real list list \<Rightarrow> nat \<Rightarrow> error + float list" where
  "vecmat v M n_bins =
     (if length v \<noteq> length M then Inl ValueError
      else Inr (map (\<lambda>c. foldl fadd (Fin 0) (map2 (\<lambda>x row. fmul x (Fin (row ! c))) v M))
                  [0..<n_bins]))"

text \<open>
  Assignment through a boolean mask into a row of zeros: the \<open>True\<close> places
  take the values in order, the others stay zero.
\<close>

fun scatter :: "bool list \<Rightarrow> float list \<Rightarrow> float list" where
  "scatter [] vs = []"
| "scatter (True # msk) (v # vs) = v # scatter msk vs"
| "scatter (True # msk) [] = Fin 0 # scatter msk []"
| "scatter (False # msk) vs = Fin 0 # scatter msk vs"

definition masked_assign :: "bool list \<Rightarrow> float list \<Rightarrow> nat \<Rightarrow> error + float list" where
  "masked_assign is_track_interior vs n_bins =
     (if length is_track_interior \<noteq> n_bins then Inl IndexError
      else if length (filter id is_track_interior) = length vs
        then Inr (scatter is_track_interior vs)
      else if length vs = 1
        then Inr (scatter is_track_interior
                    (replicate (length (filter id is_track_interior)) (hd vs)))
      else Inl ValueError)"

text \<open>
  \<open>get_kde\<close>; \<open>n_bins\<close> is \<open>gaussian_track_distances.shape[1]\<close>, which a list
  of rows does not carry when there is no training sample.
\<close>

definition get_kde ::
    "real list list \<Rightarrow> real list list \<Rightarrow> bool list \<Rightarrow> real list \<Rightarrow>
     real list list \<Rightarrow> nat \<Rightarrow> error + float list list" where
  "get_kde test_multiunit train_multiunit is_track_interior bandwidths
           gaussian_track_distances n_bins =
     traverse (\<lambda>test_row.
        case vecmat (numba_product test_row train_multiunit bandwidths)
               gaussian_track_distances n_bins of
          Inl e \<Rightarrow> Inl e
        | Inr vs \<Rightarrow> masked_assign is_track_interior vs n_bins)
       test_multiunit"

section \<open>The track graph\<close>

text \<open>
  Node ids are hashable Python values: the track nodes are numbered, and the
  transient anchor of \<open>get_distance2\<close> is the string \<open>'a'\<close>.
\<close>

datatype node = Id int | Name string

definition anchor :: node where
  "anchor = Name ''a''"

text \<open>
  A networkx \<open>Graph\<close> is its adjacency dictionary: node to (neighbour to edge
  data), both in insertion order.  The edge data is the \<open>distance\<close> attribute.
  In a networkx graph the adjacency is symmetric and every neighbour is a node.
\<close>

type_synonym graph = "(node \<times> (node \<times> real) list) list"

definition add_node :: "graph \<Rightarrow> node \<Rightarrow> graph" where
  "add_node g n = (if map_of g n = None then g @ [(n, [])] else g)"

text \<open>\<open>add_edges_from\<close> for one edge: both ends become nodes, both directions are set.\<close>

definition add_edge :: "graph \<Rightarrow> node \<Rightarrow> node \<Rightarrow> real \<Rightarrow> graph" where
  "add_edge g u v w =
     AList.map_entry v (AList.update u w)
       (AList.map_entry u (AList.update v w) (add_node (add_node g u) v))"

text \<open>\<open>nx.add_path\<close>: the first node is added, then the edges between successive nodes.\<close>

fun add_path_edges :: "graph \<Rightarrow> node \<Rightarrow> node list \<Rightarrow> real \<Rightarrow> graph" where
  "add_path_edges g u [] w = g"
| "add_path_edges g u (v # vs) w = add_path_edges (add_edge g u v w) v vs w"

definition add_path :: "graph \<Rightarrow> node list \<Rightarrow> real \<Rightarrow> graph" where
  "add_path g nodes_for_path distance =
     (case nodes_for_path of
        [] \<Rightarrow> g
      | first_node # nlist \<Rightarrow> add_path_edges (add_node g first_node) first_node nlist distance)"

text \<open>
  \<open>Graph.remove_node\<close>: the entry for \<open>n\<close> is deleted from the adjacency of
  each neighbour of \<open>n\<close>, then \<open>n\<close> itself is deleted.
\<close>

definition remove_node :: "graph \<Rightarrow> node \<Rightarrow> error + graph" where
  "remove_node g n =
     (case map_of g n of
        None \<Rightarrow> Inl NetworkXError
      | Some nbrs \<Rightarrow>
          Inr (AList.delete n
                 (fold (\<lambda>u. AList.map_entry u (AList.delete n)) (map fst nbrs) g)))"

subsection \<open>Shortest path lengths from one source\<close>

text \<open>
  \<open>nx.single_source_dijkstra_path_length\<close>, after networkx: the fringe is a
  heap of (distance, counter, node), \<open>dists\<close> (the dictionary \<open>dist\<close> of
  the source) holds the final distances and \<open>seen\<close> the best distance pushed
  so far.  The result has a key for every
  node reached and no other.
\<close>

type_synonym entry = "real \<times> nat \<times> node"

text \<open>Tuple order; the counters are distinct, so two nodes are never compared.\<close>

definition entry_less :: "entry \<Rightarrow> entry \<Rightarrow> bool" where
  "entry_less x y = (fst x < fst y \<or> (fst x = fst y \<and> fst (snd x) < fst (snd y)))"

fun heap_min :: "entry \<Rightarrow> entry list \<Rightarrow> entry" where
  "heap_min m [] = m"
| "heap_min m (x # xs) = heap_min (if entry_less x m then x else m) xs"

text \<open>The loop over the neighbours \<open>u\<close> of the node just finalised at distance \<open>d\<close>.\<close>

fun relax ::
    "(node \<rightharpoonup> real) \<Rightarrow> real \<Rightarrow> (node \<times> real) list \<Rightarrow>
     (node \<rightharpoonup> real) \<times> entry list \<times> nat \<Rightarrow>
     error + ((node \<rightharpoonup> real) \<times> entry list \<times> nat)" where
  "relax dists d [] st = Inr st"
| "relax dists d ((u, cost) # nbrs) (seen, fringe, c) =
     (let vu_dist = d + cost in
      case dists u of
        Some u_dist \<Rightarrow>
          if vu_dist < u_dist then Inl ValueError
          else relax dists d nbrs (seen, fringe, c)
      | None \<Rightarrow>
          (case seen u of
             None \<Rightarrow> relax dists d nbrs (seen(u \<mapsto> vu_dist), (vu_dist, c, u) # fringe, Suc c)
           | Some s \<Rightarrow>
               if vu_dist < s
               then relax dists d nbrs (seen(u \<mapsto> vu_dist), (vu_dist, c, u) # fringe, Suc c)
               else relax dists d nbrs (seen, fringe, c)))"

function dijkstra_loop ::
    "graph \<Rightarrow> (node \<rightharpoonup> real) \<Rightarrow> (node \<rightharpoonup> real) \<Rightarrow> entry list \<Rightarrow> nat \<Rightarrow>
     error + (node \<rightharpoonup> real)" where
  "dijkstra_loop g dists seen fringe c =
     (if fringe = [] then Inr dists
      else
        let m = heap_min (hd fringe) (tl fringe);
            d = fst m;
            v = snd (snd m);
            fringe' = remove1 m fringe
        in if dists v \<noteq> None then dijkstra_loop g dists seen fringe' c
           else
             (case map_of g v of
                None \<Rightarrow> Inl KeyError
              | Some nbrs \<Rightarrow>
                  (case relax (dists(v \<mapsto> d)) d nbrs (seen, fringe', c) of
                     Inl err \<Rightarrow> Inl err
                   | Inr st \<Rightarrow>
                       dijkstra_loop g (dists(v \<mapsto> d)) (fst st) (fst (snd st)) (snd (snd st)))))"
  by pat_completeness auto
termination
proof (relation "measures [\<lambda>(g, dists, seen, fringe, c). card (fst ` set g - dom dists),
                           \<lambda>(g, dists, seen, fringe, c). length fringe]")
  show "wf (measures [\<lambda>(g, dists, seen, fringe, c). card (fst ` set g - dom dists),
                      \<lambda>(g, dists, seen, fringe, c). length (fringe :: entry list)])"
    by simp
next
  fix g :: graph and dists seen :: "node \<rightharpoonup> real" and fringe :: "entry list" and c :: nat
    and m d v fringe'
  assume ne: "fringe \<noteq> []" and m: "m = heap_min (hd fringe) (tl fringe)"
    and f': "fringe' = remove1 m fringe"
  have mem: "heap_min x xs \<in> set (x # xs)" for x :: entry and xs
    by (induction xs arbitrary: x) auto
  from ne have "hd fringe # tl fringe = fringe" by simp
  with mem [of "hd fringe" "tl fringe"] m have "m \<in> set fringe" by simp
  then have "length fringe' < length fringe"
    unfolding f' by (simp add: length_remove1) (cases fringe; auto)
  then show "((g, dists, seen, fringe', c), (g, dists, seen, fringe, c))
        \<in> measures [\<lambda>(g, dists, seen, fringe, c). card (fst ` set g - dom dists),
                     \<lambda>(g, dists, seen, fringe, c). length fringe]"
    by simp
next
  fix g :: graph and dists seen :: "node \<rightharpoonup> real" and fringe :: "entry list" and c :: nat
    and m d v fringe' nbrs and st :: "(node \<rightharpoonup> real) \<times> entry list \<times> nat"
  assume nd: "\<not> dists v \<noteq> None" and g: "map_of g v = Some nbrs"
  from g have "v \<in> fst ` set g" by (metis map_of_eq_None_iff option.distinct(1))
  with nd have in_rest: "v \<in> fst ` set g - dom dists" by auto
  have fin: "finite (fst ` set g - dom dists)" by simp
  have "fst ` set g - dom (dists(v \<mapsto> d)) = (fst ` set g - dom dists) - {v}" by auto
  then have "card (fst ` set g - dom (dists(v \<mapsto> d))) < card (fst ` set g - dom dists)"
    using card_Diff1_less [OF fin in_rest] by presburger
  then show "((g, dists(v \<mapsto> d), fst st, fst (snd st), snd (snd st)), (g, dists, seen, fringe, c))
        \<in> measures [\<lambda>(g, dists, seen, fringe, c). card (fst ` set g - dom dists),
                     \<lambda>(g, dists, seen, fringe, c). length fringe]"
    by simp
qed

declare dijkstra_loop.simps [simp del]

definition single_source_dijkstra_path_length :: "graph \<Rightarrow> node \<Rightarrow> error + (node \<rightharpoonup> real)" where
  "single_source_dijkstra_path_length g source =
     (if map_of g source = None then Inl NodeNotFound
      else dijkstra_loop g Map.empty [source \<mapsto> 0] [(0, 0, source)] 1)"

section \<open>The node index table and the bracketing nodes\<close>

text \<open>One row of the data frame \<open>nodes_df\<close>; the fields are its columns.\<close>

record node_row =
  node_ids :: node
  edge_id :: int
  is_bin_edge :: bool
  linear_position :: real

text \<open>
  \<open>np.searchsorted(a, v)\<close> with the default \<open>side='left'\<close>, as numpy
  specifies it for an ascending \<open>a\<close> (the table is sorted by linear
  position): the first index whose entry is not below \<open>v\<close>, the length of
  \<open>a\<close> when there is none.
\<close>

definition searchsorted :: "real list \<Rightarrow> real \<Rightarrow> nat" where
  "searchsorted a v = length (takeWhile (\<lambda>x. x < v) a)"

text \<open>
  Positional indexing of numpy arrays and of \<open>iloc\<close>: a negative index counts
  from the end, an index outside \<open>-n .. n - 1\<close> raises.
\<close>

definition take_index :: "'a list \<Rightarrow> int \<Rightarrow> error + 'a" where
  "take_index xs i =
     (let n = int (length xs) in
      if 0 \<le> i \<and> i < n then Inr (xs ! nat i)
      else if - n \<le> i \<and> i < 0 then Inr (xs ! nat (n + i))
      else Inl IndexError)"

text \<open>\<open>np.argmin\<close> of one non-empty row: the first index of the minimum.\<close>

definition np_argmin :: "real list \<Rightarrow> nat" where
  "np_argmin xs = length (takeWhile (\<lambda>x. x \<noteq> fold min (tl xs) (hd xs)) xs)"

text \<open>The index of the nearest node, \<open>np.argmin(np.abs(position - linear_position))\<close>.\<close>

definition nearest_node_ind :: "node_row list \<Rightarrow> real \<Rightarrow> int" where
  "nearest_node_ind nodes_df position =
     int (np_argmin (map (\<lambda>row. \<bar>position - linear_position row\<bar>) nodes_df))"

text \<open>
  \<open>_setup_distance\<close>.  \<open>left_node_ind\<close> and \<open>right_node_ind\<close> are the index
  arrays after the masked assignment of the nearest node; \<open>right_dist\<close> is
  computed from \<open>left_node_ind\<close>, as the source does.  The bin centres are
  sorted by linear position; bin centres at the same linear position keep
  the order of the table.
\<close>

definition left_node_ind :: "node_row list \<Rightarrow> bool \<Rightarrow> int \<Rightarrow> real \<Rightarrow> int" where
  "left_node_ind nodes_df is_same_edge bin_ind position =
     (if is_same_edge then bin_ind - 1 else nearest_node_ind nodes_df position)"

definition right_node_ind :: "node_row list \<Rightarrow> bool \<Rightarrow> int \<Rightarrow> real \<Rightarrow> int" where
  "right_node_ind nodes_df is_same_edge bin_ind position =
     (if is_same_edge then bin_ind else nearest_node_ind nodes_df position)"

definition place_bin_center_to_node_id :: "node_row list \<Rightarrow> node list" where
  "place_bin_center_to_node_id nodes_df =
     map node_ids (sort_key linear_position (filter (\<lambda>row. \<not> is_bin_edge row) nodes_df))"

definition setup_distance ::
    "real list \<Rightarrow> node_row list \<Rightarrow>
     error + (node list \<times> node list \<times> real list \<times> real list \<times> node list)" where
  "setup_distance positions nodes_df =
     (let bin_ind = map (\<lambda>p. int (searchsorted (map linear_position nodes_df) p)) positions in
      case traverse (\<lambda>i. take_index nodes_df (i - 1)) bin_ind of
        Inl e \<Rightarrow> Inl e
      | Inr left_rows \<Rightarrow>
      (case traverse (\<lambda>i. take_index nodes_df i) bin_ind of
        Inl e \<Rightarrow> Inl e
      | Inr right_rows \<Rightarrow>
      (let is_same_edge = map2 (\<lambda>l r. edge_id l = edge_id r) left_rows right_rows in
       if nodes_df = [] then Inl ValueError
       else
         let items = zip is_same_edge (zip bin_ind positions);
             left_ind = map (\<lambda>(same, i, p). left_node_ind nodes_df same i p) items;
             right_ind = map (\<lambda>(same, i, p). right_node_ind nodes_df same i p) items
         in
         case traverse (take_index (map node_ids nodes_df)) left_ind of
           Inl e \<Rightarrow> Inl e
         | Inr left_node_id \<Rightarrow>
         (case traverse (take_index (map node_ids nodes_df)) right_ind of
           Inl e \<Rightarrow> Inl e
         | Inr right_node_id \<Rightarrow>
         (case traverse (take_index (map linear_position nodes_df)) left_ind of
           Inl e \<Rightarrow> Inl e
         | Inr left_position \<Rightarrow>
             Inr (left_node_id, right_node_id,
                  map2 (\<lambda>x p. \<bar>x - p\<bar>) left_position positions,
                  map2 (\<lambda>x p. \<bar>x - p\<bar>) left_position positions,
                  place_bin_center_to_node_id nodes_df))))))"

section \<open>Distances from one position to the bin centres\<close>

text \<open>
  \<open>get_distance2\<close> mutates the graph it is given: the graph goes in and its
  state at the return (or at the raise) comes out with the result.
\<close>

definition get_distance2 ::
    "graph \<Rightarrow> node \<Rightarrow> node \<Rightarrow> real \<Rightarrow> real \<Rightarrow> node list \<Rightarrow> (error + real list) \<times> graph" where
  "get_distance2 track_graph left_node_id right_node_id left_dist right_dist bin_centers =
     (let g1 = add_path track_graph [left_node_id, anchor] left_dist;
          g2 = add_path g1 [anchor, right_node_id] right_dist
      in case single_source_dijkstra_path_length g2 anchor of
           Inl e \<Rightarrow> (Inl e, g2)
         | Inr dists \<Rightarrow>
             (case remove_node g2 anchor of
                Inl e \<Rightarrow> (Inl e, g2)
              | Inr g3 \<Rightarrow>
                  (traverse (\<lambda>n. case dists n of None \<Rightarrow> Inl KeyError | Some d \<Rightarrow> Inr d)
                     bin_centers, g3)))"

text \<open>
  Graphs are objects: a store holds them, a reference is an index into it, and
  \<open>Graph.copy\<close> allocates a new object holding the same nodes, edges and
  weights.
\<close>

type_synonym store = "graph list"

text \<open>
  The list comprehension of \<open>batch_distance\<close>: every position of the batch
  is solved in turn on the graph at reference \<open>copy_graph\<close>.
\<close>

fun stack_rows ::
    "store \<Rightarrow> nat \<Rightarrow> (node \<times> node \<times> real \<times> real) list \<Rightarrow> node list \<Rightarrow>
     (error + real list list) \<times> store" where
  "stack_rows s copy_graph [] bin_centers = (Inr [], s)"
| "stack_rows s copy_graph ((l_id, r_id, l_d, r_d) # items) bin_centers =
     (case get_distance2 (s ! copy_graph) l_id r_id l_d r_d bin_centers of
        (Inl e, g') \<Rightarrow> (Inl e, s[copy_graph := g'])
      | (Inr row, g') \<Rightarrow>
          (case stack_rows (s[copy_graph := g']) copy_graph items bin_centers of
             (Inl e, s') \<Rightarrow> (Inl e, s')
           | (Inr rows, s') \<Rightarrow> (Inr (row # rows), s')))"

text \<open>\<open>np.stack\<close> raises on an empty list of rows.\<close>

definition batch_distance ::
    "store \<Rightarrow> nat \<Rightarrow> node list \<Rightarrow> node list \<Rightarrow> real list \<Rightarrow> real list \<Rightarrow> node list \<Rightarrow>
     (error + real list list) \<times> store" where
  "batch_distance s track_graph left_node_id right_node_id left_dist right_dist bin_centers =
     (let copy_graph = length s;
          s1 = s @ [s ! track_graph]
      in case stack_rows s1 copy_graph
                (zip left_node_id (zip right_node_id (zip left_dist right_dist))) bin_centers of
           (Inl e, s2) \<Rightarrow> (Inl e, s2)
         | (Inr rows, s2) \<Rightarrow> if rows = [] then (Inl ValueError, s2) else (Inr rows, s2))"

section \<open>Batches\<close>

text \<open>
  The generator \<open>batch\<close>: the ranges \<open>range(ind, min(ind + batch_size, n_samples))\<close>
  for \<open>ind\<close> in \<open>range(0, n_samples, batch_size)\<close>.  A zero step raises, a
  negative step gives no range.
\<close>

function batch_from :: "nat \<Rightarrow> nat \<Rightarrow> nat \<Rightarrow> nat list list" where
  "batch_from ind n_samples batch_size =
     (if batch_size = 0 \<or> n_samples \<le> ind then []
      else [ind..<min (ind + batch_size) n_samples] #
           batch_from (ind + batch_size) n_samples batch_size)"
  by pat_completeness auto
termination
  by (relation "measure (\<lambda>(ind, n_samples, batch_size). n_samples - ind)") auto

declare batch_from.simps [simp del]

definition batch :: "nat \<Rightarrow> int \<Rightarrow> error + nat list list" where
  "batch n_samples batch_size =
     (if batch_size = 0 then Inl ValueError
      else if batch_size < 0 then Inr []
      else Inr (batch_from 0 n_samples (nat batch_size)))"

text \<open>The batches are computed in submission order; the first error aborts the call.\<close>

fun compute_batches ::
    "store \<Rightarrow> nat \<Rightarrow> node list \<Rightarrow> node list \<Rightarrow> real list \<Rightarrow> real list \<Rightarrow> node list \<Rightarrow>
     nat list list \<Rightarrow> (error + real list list list) \<times> store" where
  "compute_batches s track_graph left_node_id right_node_id left_dist right_dist bin_centers [] =
     (Inr [], s)"
| "compute_batches s track_graph left_node_id right_node_id left_dist right_dist bin_centers
     (time_ind # rest) =
     (case batch_distance s track_graph
             (map ((!) left_node_id) time_ind) (map ((!) right_node_id) time_ind)
             (map ((!) left_dist) time_ind) (map ((!) right_dist) time_ind) bin_centers of
        (Inl e, s') \<Rightarrow> (Inl e, s')
      | (Inr block, s') \<Rightarrow>
          (case compute_batches s' track_graph left_node_id right_node_id left_dist right_dist
                  bin_centers rest of
             (Inl e, s'') \<Rightarrow> (Inl e, s'')
           | (Inr blocks, s'') \<Rightarrow> (Inr (block # blocks), s'')))"

text \<open>
  The body of \<open>convert_linear_position_to_track_distances\<close> with the batch
  size as a parameter; \<open>np.concatenate\<close> raises when there is no block.
\<close>

definition track_distances_batched ::
    "int \<Rightarrow> store \<Rightarrow> nat \<Rightarrow> real list \<Rightarrow> node_row list \<Rightarrow> (error + real list list) \<times> store" where
  "track_distances_batched batch_size s track_graph positions nodes_df =
     (case setup_distance positions nodes_df of
        Inl e \<Rightarrow> (Inl e, s)
      | Inr (left_node_id, right_node_id, left_dist, right_dist, bin_centers) \<Rightarrow>
          (case batch (length positions) batch_size of
             Inl e \<Rightarrow> (Inl e, s)
           | Inr time_inds \<Rightarrow>
               (case compute_batches s track_graph left_node_id right_node_id left_dist
                       right_dist bin_centers time_inds of
                  (Inl e, s') \<Rightarrow> (Inl e, s')
                | (Inr blocks, s') \<Rightarrow>
                    if blocks = [] then (Inl ValueError, s') else (Inr (concat blocks), s'))))"

definition convert_linear_position_to_track_distances ::
    "store \<Rightarrow> nat \<Rightarrow> real list \<Rightarrow> node_row list \<Rightarrow> (error + real list list) \<times> store" where
  "convert_linear_position_to_track_distances = track_distances_batched 10000"

section \<open>A three-node track\<close>

text \<open>
  The track of the specification's end-to-end scenario: one edge segment with
  nodes at the linear positions 0, 5 and 10, the outer two being bin centres.
\<close>

definition example_graph :: graph where
  "example_graph =
     [(Id 0, [(Id 1, 5)]), (Id 1, [(Id 0, 5), (Id 2, 5)]), (Id 2, [(Id 1, 5)])]"

definition example_nodes :: "node_row list" where
  "example_nodes =
     [\<lparr>node_ids = Id 0, edge_id = 0, is_bin_edge = False, linear_position = 0\<rparr>,
      \<lparr>node_ids = Id 1, edge_id = 0, is_bin_edge = True, linear_position = 5\<rparr>,
      \<lparr>node_ids = Id 2, edge_id = 0, is_bin_edge = False, linear_position = 10\<rparr>]"

section \<open>Well-formed track graphs\<close>

text \<open>
  The invariants of the data model: every neighbour of a node is a node of the
  graph, as in every networkx graph, and the distances are not negative.  A
  node is reachable from another along the adjacency.
\<close>

definition well_formed :: "graph \<Rightarrow> bool" where
  "well_formed g = (\<forall>(u, nbrs)\<in>set g. \<forall>(v, w)\<in>set nbrs. v \<in> fst ` set g)"

definition non_negative :: "graph \<Rightarrow> bool" where
  "non_negative g = (\<forall>(u, nbrs)\<in>set g. \<forall>(v, w)\<in>set nbrs. 0 \<le> w)"

definition neighbours :: "graph \<Rightarrow> node \<Rightarrow> node set" where
  "neighbours g u = (case map_of g u of None \<Rightarrow> {} | Some nbrs \<Rightarrow> fst ` set nbrs)"

definition reachable :: "graph \<Rightarrow> node \<Rightarrow> node \<Rightarrow> bool" where
  "reachable g u v = ((u, v) \<in> {(x, y). y \<in> neighbours g x}\<^sup>*)"

text \<open>
  The state of a batch's copy after some positions have been solved on it: the
  graph \<open>g\<close> it was copied from, with the anchor removed again, and possibly
  with bracket nodes of the table that \<open>g\<close> does not have, left behind
  without any edge.
\<close>

definition isolated_extension :: "graph \<Rightarrow> graph \<Rightarrow> bool" where
  "isolated_extension g g' =
     (map_of g' anchor = None \<and>
      (\<forall>x. map_of g' x = map_of g x \<or> (map_of g x = None \<and> map_of g' x = Some [])))"

section \<open>Solving every position on its own\<close>

text \<open>
  The reference the batched solver is compared with: every position is solved
  on the graph as the caller passed it, one row per position in the order of
  the positions; \<open>np.concatenate\<close> raises when there is no position.
\<close>

definition solve_position ::
    "graph \<Rightarrow> node list \<Rightarrow> node \<times> node \<times> real \<times> real \<Rightarrow> error + real list" where
  "solve_position g bin_centers = (\<lambda>(l, r, ld, rd). fst (get_distance2 g l r ld rd bin_centers))"

definition solve_each :: "graph \<Rightarrow> real list \<Rightarrow> node_row list \<Rightarrow> error + real list list" where
  "solve_each g positions nodes_df =
     (case setup_distance positions nodes_df of
        Inl e \<Rightarrow> Inl e
      | Inr (left_node_id, right_node_id, left_dist, right_dist, bin_centers) \<Rightarrow>
          if positions = [] then Inl ValueError
          else traverse (solve_position g bin_centers)
                 (zip left_node_id (zip right_node_id (zip left_dist right_dist))))"

section \<open>Tracks for the examples\<close>

text \<open>
  The three-node track with the edge between the nodes at 5 and 10 missing:
  the bin centre at 10 is cut off.
\<close>

definition split_graph :: graph where
  "split_graph = [(Id 0, [(Id 1, 5)]), (Id 1, [(Id 0, 5)]), (Id 2, [])]"

text \<open>A track whose middle node is itself named \<open>'a'\<close>.\<close>

definition anchor_graph :: graph where
  "anchor_graph =
     [(Id 0, [(Name ''a'', 5)]), (Name ''a'', [(Id 0, 5), (Id 2, 5)]), (Id 2, [(Name ''a'', 5)])]"

definition anchor_nodes :: "node_row list" where
  "anchor_nodes =
     [\<lparr>node_ids = Id 0, edge_id = 0, is_bin_edge = False, linear_position = 0\<rparr>,
      \<lparr>node_ids = Name ''a'', edge_id = 0, is_bin_edge = True, linear_position = 5\<rparr>,
      \<lparr>node_ids = Id 2, edge_id = 0, is_bin_edge = False, linear_position = 10\<rparr>]"

section \<open>Running a fallible function over a list\<close>

lemma traverse_Inr_iff:
  "traverse f xs = Inr ys \<longleftrightarrow>
     length ys = length xs \<and> (\<forall>i<length xs. f (xs ! i) = Inr (ys ! i))"
proof (induction xs arbitrary: ys)
  case Nil
  then show ?case by auto
next
  case (Cons x xs)
  show ?case
  proof (cases "f x")
    case (Inl e)
    then show ?thesis by (auto intro: exI [of _ 0])
  next
    case (Inr y)
    show ?thesis
    proof (cases "traverse f xs")
      case (Inl e)
      with Cons.IH [of "tl ys"] Inr show ?thesis
        by (cases ys) (auto simp: nth_Cons split: nat.splits)
    next
      case r: (Inr zs)
      with Cons.IH [of zs] Cons.IH [of "tl ys"] Inr show ?thesis
        by (cases ys) (auto simp: nth_Cons less_Suc_eq_0_disj split: nat.splits)
    qed
  qed
qed

lemma traverse_Inl: "traverse f xs = Inl e \<Longrightarrow> \<exists>x\<in>set xs. f x = Inl e"
  by (induction xs) (auto split: sum.splits)

lemma traverse_map_Inr:
  "(\<And>x. x \<in> set xs \<Longrightarrow> f x = Inr (h x)) \<Longrightarrow> traverse f xs = Inr (map h xs)"
  by (induction xs) auto

lemma traverse_append:
  "traverse f (xs @ ys) =
     (case traverse f xs of
        Inl e \<Rightarrow> Inl e
      | Inr a \<Rightarrow> (case traverse f ys of Inl e \<Rightarrow> Inl e | Inr b \<Rightarrow> Inr (a @ b)))"
  by (induction xs) (auto split: sum.splits)

lemma traverse_map: "traverse f (map h xs) = traverse (\<lambda>x. f (h x)) xs"
  by (induction xs) (auto split: sum.splits)

lemma traverse_length: "traverse f xs = Inr ys \<Longrightarrow> length ys = length xs"
  by (simp add: traverse_Inr_iff)

lemma traverse_only_error:
  assumes "\<forall>x\<in>set xs. \<forall>e. f x = Inl e \<longrightarrow> e = E" and "x \<in> set xs" and "f x = Inl E"
  shows "traverse f xs = Inl E"
proof (cases "traverse f xs")
  case (Inl e)
  then obtain y where "y \<in> set xs" "f y = Inl e" by (auto dest: traverse_Inl)
  with assms(1) Inl show ?thesis by auto
next
  case (Inr ys)
  from assms(2) obtain i where "i < length xs" "xs ! i = x" by (auto simp: in_set_conv_nth)
  with Inr assms(3) show ?thesis by (auto simp: traverse_Inr_iff)
qed

lemma traverse_blocks:
  assumes "\<forall>ti\<in>set tis. ti \<noteq> []"
  shows "(case traverse (\<lambda>ti. case traverse R ti of
                                 Inl e \<Rightarrow> Inl e
                               | Inr rows \<Rightarrow> if rows = [] then Inl ValueError else Inr rows) tis of
            Inl e \<Rightarrow> Inl e
          | Inr blocks \<Rightarrow> Inr (concat blocks)) = traverse R (concat tis)"
  using assms
proof (induction tis)
  case Nil
  then show ?case by simp
next
  case (Cons ti tis)
  then have ne: "ti \<noteq> []" and rest: "\<forall>ti\<in>set tis. ti \<noteq> []" by auto
  show ?case
  proof (cases "traverse R ti")
    case (Inl e)
    then show ?thesis by (simp add: traverse_append)
  next
    case (Inr rows)
    with ne have "rows \<noteq> []" by (auto dest: traverse_length)
    with Inr Cons.IH [OF rest] show ?thesis
      by (auto simp: traverse_append split: sum.splits)
  qed
qed

section \<open>Properties of the scaled likelihood\<close>

lemma np_max_Inr: "xs \<noteq> [] \<Longrightarrow> np_max xs = Inr (Max (set xs))"
  using Max.set_eq_fold [of "hd xs" "tl xs"] by (cases xs) (simp_all add: np_max_def)

lemma Max_exp_shift:
  assumes "xs \<noteq> []"
  shows "Max (set (map (\<lambda>x. exp (x - Max (set xs))) xs)) = (1::real)"
proof -
  let ?m = "Max (set xs)"
  have mono: "mono (\<lambda>x::real. exp (x - ?m))" by (simp add: mono_def)
  have "Max ((\<lambda>x. exp (x - ?m)) ` set xs) = exp (?m - ?m)"
    using mono_Max_commute [OF mono, of "set xs"] assms by simp
  then show ?thesis by simp
qed

text \<open>
  Claim C8.  When the wrapped function returns a non-empty array of log
  likelihoods, the decorated function returns the array of
  \<open>exp (x - m)\<close>, \<open>m\<close> being the maximum over the whole array, and the
  maximum of the returned array is exactly 1.
\<close>

theorem scaled_likelihood_max_one:
  assumes "log_likelihood_func args = Inr ll" and "concat ll \<noteq> []"
  shows "\<exists>r. scaled_likelihood log_likelihood_func args = Inr r \<and>
             np_max (concat r) = Inr 1 \<and>
             r = map (map (\<lambda>x. exp (x - Max (set (concat ll))))) ll"
proof -
  let ?m = "Max (set (concat ll))"
  let ?r = "map (map (\<lambda>x. exp (x - ?m))) ll"
  have r: "scaled_likelihood log_likelihood_func args = Inr ?r"
    using assms by (simp add: scaled_likelihood_def np_max_Inr)
  have c: "concat ?r = map (\<lambda>x. exp (x - ?m)) (concat ll)"
    by (simp add: map_concat)
  have "np_max (concat ?r) = Inr 1"
    unfolding c using assms(2) Max_exp_shift [of "concat ll"]
    by (simp add: np_max_Inr del: set_concat set_map)
  with r show ?thesis by blast
qed

theorem scaled_likelihood_max_one_witness:
  "\<exists>r. scaled_likelihood (\<lambda>u::unit. Inr [[0, -1], [-3, 0 :: real]]) () = Inr r \<and>
       np_max (concat r) = Inr 1 \<and>
       r = map (map (\<lambda>x. exp (x - Max (set (concat [[0, -1], [-3, 0 :: real]])))))
             [[0, -1], [-3, 0]]"
  using scaled_likelihood_max_one
          [of "\<lambda>u::unit. Inr [[0, -1], [-3, 0 :: real]]" "()" "[[0, -1], [-3, 0]]"]
  by simp

section \<open>Properties of the kernel density estimate\<close>

lemma SQRT_2PI_pos: "0 < SQRT_2PI"
  by (simp add: SQRT_2PI_def)

lemma kernel_factor_finite:
  "b \<noteq> 0 \<Longrightarrow>
   kernel_factor (Fin e) (Fin s) (Fin b) =
     Fin (exp (- 0.5 * ((e - s) / b)\<^sup>2) / (b * SQRT_2PI) / b)"
  using SQRT_2PI_pos by (simp add: kernel_factor_def fsub_def Let_def power2_eq_square)

lemma kernel_factor_zero: "kernel_factor e (Fin s) (Fin 0) = NaN"
  by (cases e) (simp_all add: kernel_factor_def fsub_def Let_def)

lemma fmul_NaN [simp]: "fmul x NaN = NaN"
  by (cases x) simp_all

lemma fadd_NaN [simp]: "fadd x NaN = NaN"
  by (cases x) simp_all

lemma fold_fmul_NaN: "fold (\<lambda>k acc. fmul acc (f k)) ks NaN = NaN"
  by (induction ks) simp_all

lemma fold_fmul_hits_NaN:
  "k \<in> set ks \<Longrightarrow> f k = NaN \<Longrightarrow> fold (\<lambda>k acc. fmul acc (f k)) ks acc = NaN"
  by (induction ks arbitrary: acc) (auto simp: fold_fmul_NaN)

lemma product_loop_zero_bandwidth:
  assumes "length row = length bandwidths" and "0 \<in> set bandwidths"
  shows "product_loop eval_point row bandwidths = NaN"
proof -
  from assms(2) obtain k where k: "k < length bandwidths" "bandwidths ! k = 0"
    by (auto simp: in_set_conv_nth)
  then have "kernel_factor (load eval_point k) (Fin (row ! k)) (load bandwidths k) = NaN"
    by (simp add: load_def kernel_factor_zero)
  moreover have "k \<in> set [0..<length row]" using k assms(1) by simp
  ultimately show ?thesis
    unfolding product_loop_def by (rule fold_fmul_hits_NaN [rotated])
qed

lemma foldl_fadd_NaN: "foldl fadd NaN xs = NaN"
  by (induction xs) simp_all

lemma foldl_fadd_all_NaN:
  "xs \<noteq> [] \<Longrightarrow> \<forall>x\<in>set xs. x = NaN \<Longrightarrow> foldl fadd a xs = NaN"
  by (cases xs) (simp_all add: foldl_fadd_NaN)

lemma scatter_all: "length vs = n \<Longrightarrow> scatter (replicate n True) vs = vs"
  by (induction n arbitrary: vs) (auto simp: length_Suc_conv)

lemma masked_assign_all:
  "length vs = n \<Longrightarrow> masked_assign (replicate n True) vs n = Inr vs"
  by (simp add: masked_assign_def scatter_all)

lemma vecmat_shape:
  "length v = length M \<Longrightarrow> \<exists>vs. vecmat v M n = Inr vs \<and> length vs = n"
  by (simp add: vecmat_def)

lemma vecmat_all_NaN:
  assumes "length v = length M" and "v \<noteq> []" and "\<forall>x\<in>set v. x = NaN"
  shows "vecmat v M n = Inr (replicate n NaN)"
proof -
  have "foldl fadd (Fin 0) (map2 (\<lambda>x row. fmul x (Fin (row ! c))) v M) = NaN" for c
  proof (rule foldl_fadd_all_NaN)
    show "map2 (\<lambda>x row. fmul x (Fin (row ! c))) v M \<noteq> []"
      using assms(1,2) by (cases v; cases M) auto
    show "\<forall>x\<in>set (map2 (\<lambda>x row. fmul x (Fin (row ! c))) v M). x = NaN"
      using assms(3) by (auto dest!: set_zip_leftD)
  qed
  then show ?thesis
    using assms(1) by (simp add: vecmat_def map_replicate_const)
qed

text \<open>
  Claim C1, at a failing input.  One test row and one training row, both
  \<open>[0]\<close>, the bandwidth 2, one interior bin with spatial kernel 1: the
  density returned is \<open>1 / (4 * sqrt (2 * pi))\<close>, the bandwidth entering
  twice, and not \<open>1 / (2 * sqrt (2 * pi))\<close>.
\<close>

theorem kde_identical_rows_bandwidth_two:
  "get_kde [[0]] [[0]] [True] [2] [[1]] 1 = Inr [[Fin (1 / (4 * SQRT_2PI))]] \<and>
   1 / (4 * SQRT_2PI) \<noteq> 1 / (2 * SQRT_2PI)"
  using SQRT_2PI_pos
  by (simp add: get_kde_def numba_product_def product_loop_def load_def
      kernel_factor_finite vecmat_def masked_assign_def)

text \<open>
  Claim C6 as stated fails.  With the bandwidth 0 the evaluation raises
  nothing and returns NaN, whether the test row equals the training row or
  not; with the negative bandwidth \<open>-1\<close> it raises nothing and returns a
  number.
\<close>

theorem kde_zero_bandwidth_returns_nan:
  "get_kde [[0]] [[0]] [True] [0] [[1]] 1 = Inr [[NaN]] \<and>
   get_kde [[1]] [[0]] [True] [0] [[1]] 1 = Inr [[NaN]] \<and>
   get_kde [[0]] [[0]] [True] [-1] [[1]] 1 = Inr [[Fin (1 / SQRT_2PI)]]"
  using SQRT_2PI_pos
  by (simp add: get_kde_def numba_product_def product_loop_def load_def
      kernel_factor_finite kernel_factor_zero vecmat_def masked_assign_def)

text \<open>
  Claim C6, amended.  The bandwidths are not validated.  For arrays of the
  documented shapes, every bin being interior, the evaluation returns a matrix
  and raises nothing, whatever the bandwidths, zero and negative ones
  included.  When a bandwidth is zero and there is a training sample, the
  division by zero is tolerated silently: every entry of the matrix is NaN.
\<close>

theorem kde_never_rejects_bandwidths:
  assumes "\<forall>row\<in>set train_multiunit. length row = length bandwidths"
    and "\<forall>row\<in>set test_multiunit. length row = length bandwidths"
    and "length gaussian_track_distances = length train_multiunit"
    and "is_track_interior = replicate n_bins True"
  shows "(\<exists>kde. get_kde test_multiunit train_multiunit is_track_interior bandwidths
                  gaussian_track_distances n_bins = Inr kde) \<and>
         (0 \<in> set bandwidths \<longrightarrow> train_multiunit \<noteq> [] \<longrightarrow>
            get_kde test_multiunit train_multiunit is_track_interior bandwidths
              gaussian_track_distances n_bins =
              Inr (map (\<lambda>test_row. replicate n_bins NaN) test_multiunit))"
proof (intro conjI impI)
  let ?row = "\<lambda>test_row.
        case vecmat (numba_product test_row train_multiunit bandwidths)
               gaussian_track_distances n_bins of
          Inl e \<Rightarrow> Inl e
        | Inr vs \<Rightarrow> masked_assign is_track_interior vs n_bins"
  have len: "length (numba_product t train_multiunit bandwidths) = length gaussian_track_distances"
    for t by (simp add: numba_product_def assms(3))
  have "\<exists>vs. ?row t = Inr vs" for t
    using vecmat_shape [OF len, of t n_bins] by (auto simp: assms(4) masked_assign_all)
  then obtain h where h: "\<And>t. ?row t = Inr (h t)" by metis
  have "traverse ?row test_multiunit = Inr (map h test_multiunit)"
    by (rule traverse_map_Inr) (rule h)
  then show "\<exists>kde. get_kde test_multiunit train_multiunit is_track_interior bandwidths
                  gaussian_track_distances n_bins = Inr kde"
    unfolding get_kde_def by blast
next
  assume zero: "0 \<in> set bandwidths" and ne: "train_multiunit \<noteq> []"
  have nan: "\<forall>x\<in>set (numba_product t train_multiunit bandwidths). x = NaN" for t
    using assms(1) zero by (auto simp: numba_product_def product_loop_zero_bandwidth)
  have len: "length (numba_product t train_multiunit bandwidths) = length gaussian_track_distances"
    for t by (simp add: numba_product_def assms(3))
  have nonempty: "numba_product t train_multiunit bandwidths \<noteq> []" for t
    using ne by (simp add: numba_product_def)
  show "get_kde test_multiunit train_multiunit is_track_interior bandwidths
              gaussian_track_distances n_bins =
              Inr (map (\<lambda>test_row. replicate n_bins NaN) test_multiunit)"
    unfolding get_kde_def
    by (rule traverse_map_Inr)
       (simp add: vecmat_all_NaN [OF len nonempty nan] assms(4) masked_assign_all)
qed

theorem kde_never_rejects_bandwidths_witness:
  "(\<exists>kde. get_kde [[1, 2]] [[1, 3], [0, 0]] [True, True] [0, - 1] [[1, 0], [0, 1]] 2 = Inr kde) \<and>
   0 \<in> set [0, - 1 :: real] \<and>
   get_kde [[1, 2]] [[1, 3], [0, 0]] [True, True] [0, - 1] [[1, 0], [0, 1]] 2
     = Inr [[NaN, NaN]]"
  using kde_never_rejects_bandwidths
          [of "[[1, 3], [0, 0]]" "[0, - 1]" "[[1, 2]]" "[[1, 0], [0, 1]]" "[True, True]" 2]
  by (simp add: numeral_2_eq_2)

section \<open>Properties of the bracketing nodes\<close>

lemma take_index_map_Inr:
  assumes "take_index (map f xs) j = Inr y"
  shows "(if 0 \<le> j then nat j else nat (int (length xs) + j)) < length xs \<and>
         y = f (xs ! (if 0 \<le> j then nat j else nat (int (length xs) + j)))"
  using assms by (auto simp: take_index_def Let_def split: if_splits)

text \<open>
  Claim C10.  Whenever \<open>_setup_distance\<close> returns, \<open>right_dist\<close> equals
  \<open>left_dist\<close>, and for every position both are the absolute difference
  between the position and the linear position of one row of the table, the
  row of the left bracket node.
\<close>

theorem setup_distance_left_right_equal:
  assumes "setup_distance positions nodes_df =
             Inr (left_node_id, right_node_id, left_dist, right_dist, bin_centers)"
  shows "right_dist = left_dist \<and> length left_dist = length positions \<and>
         (\<forall>i<length positions. \<exists>j<length nodes_df.
            left_node_id ! i = node_ids (nodes_df ! j) \<and>
            left_dist ! i = \<bar>linear_position (nodes_df ! j) - positions ! i\<bar> \<and>
            right_dist ! i = \<bar>linear_position (nodes_df ! j) - positions ! i\<bar>)"
proof -
  define bin_ind where
    "bin_ind = map (\<lambda>p. int (searchsorted (map linear_position nodes_df) p)) positions"
  from assms obtain left_rows right_rows where
    lr: "traverse (\<lambda>i. take_index nodes_df (i - 1)) bin_ind = Inr left_rows"
    and rr: "traverse (\<lambda>i. take_index nodes_df i) bin_ind = Inr right_rows"
    unfolding setup_distance_def bin_ind_def [symmetric] Let_def
    by (auto split: sum.splits if_splits)
  define left_ind where
    "left_ind = map (\<lambda>(same, i, p). left_node_ind nodes_df same i p)
       (zip (map2 (\<lambda>l r. edge_id l = edge_id r) left_rows right_rows) (zip bin_ind positions))"
  from assms lr rr obtain left_position where
    ids: "traverse (take_index (map node_ids nodes_df)) left_ind = Inr left_node_id"
    and lps: "traverse (take_index (map linear_position nodes_df)) left_ind = Inr left_position"
    and ld: "left_dist = map2 (\<lambda>x p. \<bar>x - p\<bar>) left_position positions"
    and rd: "right_dist = map2 (\<lambda>x p. \<bar>x - p\<bar>) left_position positions"
    unfolding setup_distance_def bin_ind_def [symmetric] Let_def left_ind_def
    by (auto split: sum.splits if_splits)
  have len_bin: "length bin_ind = length positions"
    by (simp add: bin_ind_def)
  have len_rows: "length left_rows = length positions" "length right_rows = length positions"
    using lr rr len_bin by (simp_all add: traverse_Inr_iff)
  have len_ind: "length left_ind = length positions"
    by (simp add: left_ind_def len_rows len_bin)
  have len_lp: "length left_position = length positions"
    using lps len_ind by (simp add: traverse_Inr_iff)
  have "\<exists>j<length nodes_df.
            left_node_id ! i = node_ids (nodes_df ! j) \<and>
            left_dist ! i = \<bar>linear_position (nodes_df ! j) - positions ! i\<bar> \<and>
            right_dist ! i = \<bar>linear_position (nodes_df ! j) - positions ! i\<bar>"
    if i: "i < length positions" for i
  proof -
    let ?j = "left_ind ! i"
    let ?k = "if 0 \<le> ?j then nat ?j else nat (int (length nodes_df) + ?j)"
    have a: "take_index (map node_ids nodes_df) ?j = Inr (left_node_id ! i)"
      and b: "take_index (map linear_position nodes_df) ?j = Inr (left_position ! i)"
      using ids lps i len_ind by (simp_all add: traverse_Inr_iff)
    from take_index_map_Inr [OF a] take_index_map_Inr [OF b]
    have "?k < length nodes_df" "left_node_id ! i = node_ids (nodes_df ! ?k)"
      "left_position ! i = linear_position (nodes_df ! ?k)" by blast+
    moreover have "left_dist ! i = \<bar>left_position ! i - positions ! i\<bar>"
      "right_dist ! i = \<bar>left_position ! i - positions ! i\<bar>"
      using i len_lp by (simp_all add: ld rd)
    ultimately show ?thesis by metis
  qed
  then show ?thesis using ld rd len_lp by simp
qed

theorem setup_distance_left_right_equal_witness:
  "setup_distance [1, 10] example_nodes =
     Inr ([Id 0, Id 1], [Id 1, Id 2], [1, 5], [1, 5], [Id 0, Id 2]) \<and>
   (\<exists>j<length example_nodes.
      [Id 0, Id 1] ! 1 = node_ids (example_nodes ! j) \<and>
      [1, 5] ! 1 = \<bar>linear_position (example_nodes ! j) - [1, 10] ! 1\<bar> \<and>
      [1, 5] ! 1 = \<bar>linear_position (example_nodes ! j) - [1, 10] ! 1\<bar>)"
proof -
  have run: "setup_distance [1, 10] example_nodes =
      Inr ([Id 0, Id 1], [Id 1, Id 2], [1, 5], [1, 5], [Id 0, Id 2])"
    by (simp add: setup_distance_def example_nodes_def searchsorted_def take_index_def
      left_node_ind_def right_node_ind_def place_bin_center_to_node_id_def)
  have one: "(1::nat) < length [1, 10 :: real]" by simp
  from setup_distance_left_right_equal [OF run]
  have "\<forall>i<length [1, 10 :: real]. \<exists>j<length example_nodes.
      [Id 0, Id 1] ! i = node_ids (example_nodes ! j) \<and>
      [1, 5] ! i = \<bar>linear_position (example_nodes ! j) - [1, 10] ! i\<bar> \<and>
      [1, 5] ! i = \<bar>linear_position (example_nodes ! j) - [1, 10] ! i\<bar>"
    by blast
  from this [rule_format, OF one] run show ?thesis by blast
qed

text \<open>
  Claim C3, at a failing input.  The position 1 on the three-node track lies
  between the nodes at 0 and 5, which share their edge segment; the brackets
  are these two nodes and the left residual is 1, but the right residual
  returned is 1 as well, where the distance to the right node is 4.
\<close>

theorem setup_distance_same_edge_residuals:
  "setup_distance [1] example_nodes = Inr ([Id 0], [Id 1], [1], [1], [Id 0, Id 2]) \<and>
   \<bar>linear_position (example_nodes ! 1) - 1\<bar> = 4"
  by (simp add: setup_distance_def example_nodes_def searchsorted_def take_index_def
      left_node_ind_def right_node_ind_def place_bin_center_to_node_id_def)

text \<open>
  Claim C4, at a failing input.  The position 11 lies above the largest
  linear position of the table; the binary search returns the length of the
  table, the positional lookup of that row raises \<open>IndexError\<close>, and the
  distance solver returns no row.
\<close>

theorem position_above_range_raises:
  "setup_distance [11] example_nodes = Inl IndexError \<and>
   fst (convert_linear_position_to_track_distances [example_graph] 0 [11] example_nodes)
     = Inl IndexError"
  by (simp add: convert_linear_position_to_track_distances_def track_distances_batched_def
      setup_distance_def example_nodes_def searchsorted_def take_index_def)

text \<open>
  Claim C2, at a failing input.  The position 10 is the linear position of
  the bin centre \<open>Id 2\<close>.  The row returned is \<open>[10, 5]\<close>: the distance to
  that bin centre is 5 and not 0, because both residuals are measured to the
  left bracket, the node at 5.
\<close>

theorem position_on_bin_center_distances:
  "fst (convert_linear_position_to_track_distances [example_graph] 0 [10] example_nodes)
     = Inr [[10, 5]]"
  by code_simp

section \<open>The store outside the private copies\<close>

lemma stack_rows_frame: "\<exists>g'. snd (stack_rows s q items bin_centers) = s[q := g']"
proof (induction items arbitrary: s)
  case Nil
  have "s = s[q := s ! q]" by simp
  then show ?case by (metis stack_rows.simps(1) snd_conv)
next
  case (Cons it items)
  obtain l r ld rd where it: "it = (l, r, ld, rd)" by (cases it) auto
  obtain res g' where gd: "get_distance2 (s ! q) l r ld rd bin_centers = (res, g')"
    by (cases "get_distance2 (s ! q) l r ld rd bin_centers") auto
  show ?case
  proof (cases res)
    case (Inl e)
    with it gd show ?thesis by auto
  next
    case (Inr row)
    from Cons.IH [of "s[q := g']"] obtain g'' where
      "snd (stack_rows (s[q := g']) q items bin_centers) = s[q := g'']" by auto
    with it gd Inr show ?thesis
      by (cases "stack_rows (s[q := g']) q items bin_centers") (auto split: sum.splits)
  qed
qed

lemma batch_distance_frame:
  "\<exists>g'. snd (batch_distance s tg lid rid ld rd bin_centers) = s @ [g']"
proof -
  let ?items = "zip lid (zip rid (zip ld rd))"
  obtain g' where "snd (stack_rows (s @ [s ! tg]) (length s) ?items bin_centers)
      = (s @ [s ! tg])[length s := g']"
    using stack_rows_frame by blast
  then show ?thesis
    by (cases "stack_rows (s @ [s ! tg]) (length s) ?items bin_centers")
       (auto simp: batch_distance_def Let_def split: sum.splits)
qed

lemma compute_batches_frame:
  "\<exists>ext. snd (compute_batches s tg lid rid ld rd bin_centers time_inds) = s @ ext"
proof (induction time_inds arbitrary: s)
  case Nil
  then show ?case by simp
next
  case (Cons ti rest)
  let ?b = "batch_distance s tg (map ((!) lid) ti) (map ((!) rid) ti)
             (map ((!) ld) ti) (map ((!) rd) ti) bin_centers"
  obtain g' where b: "snd ?b = s @ [g']" using batch_distance_frame by blast
  from Cons.IH [of "s @ [g']"] obtain ext where
    r: "snd (compute_batches (s @ [g']) tg lid rid ld rd bin_centers rest) = (s @ [g']) @ ext"
    by blast
  show ?case
  proof (cases "fst ?b")
    case (Inl e)
    with b show ?thesis by (cases ?b) auto
  next
    case (Inr block)
    with b r show ?thesis
      by (cases ?b; cases "compute_batches (s @ [g']) tg lid rid ld rd bin_centers rest")
         (auto split: sum.splits)
  qed
qed

lemma track_distances_batched_frame:
  "\<exists>ext. snd (track_distances_batched batch_size s tg positions nodes_df) = s @ ext"
proof (cases "setup_distance positions nodes_df")
  case (Inl e)
  then show ?thesis by (simp add: track_distances_batched_def)
next
  case (Inr t)
  obtain lid rid ld rd pbc where t: "t = (lid, rid, ld, rd, pbc)" by (cases t) auto
  show ?thesis
  proof (cases "batch (length positions) batch_size")
    case (Inl e)
    with Inr t show ?thesis by (simp add: track_distances_batched_def)
  next
    case b: (Inr time_inds)
    obtain ext where "snd (compute_batches s tg lid rid ld rd pbc time_inds) = s @ ext"
      using compute_batches_frame by blast
    with Inr t b show ?thesis
      by (cases "compute_batches s tg lid rid ld rd pbc time_inds")
         (auto simp: track_distances_batched_def split: sum.splits)
  qed
qed

text \<open>
  Claim C9.  The distance solver leaves the caller's graph as it was: the
  graph at the reference \<open>track_graph\<close>, and every other object that existed
  before the call, has the same nodes, edges and weights after the call.
  Each batch works on a copy allocated behind them, whether the call returns
  or raises.
\<close>

theorem shared_graph_not_mutated:
  assumes "track_graph < length s"
  shows "snd (convert_linear_position_to_track_distances s track_graph positions nodes_df)
           ! track_graph = s ! track_graph \<and>
         take (length s)
           (snd (convert_linear_position_to_track_distances s track_graph positions nodes_df))
           = s"
proof -
  obtain ext where
    "snd (convert_linear_position_to_track_distances s track_graph positions nodes_df) = s @ ext"
    unfolding convert_linear_position_to_track_distances_def
    using track_distances_batched_frame by blast
  with assms show ?thesis by (simp add: nth_append)
qed

theorem shared_graph_not_mutated_witness:
  "snd (convert_linear_position_to_track_distances [example_graph] 0 [1, 7] example_nodes) ! 0
     = example_graph \<and>
   take 1 (snd (convert_linear_position_to_track_distances [example_graph] 0 [1, 7]
             example_nodes)) = [example_graph] \<and>
   fst (convert_linear_position_to_track_distances [example_graph] 0 [1, 7] example_nodes)
     = Inr [[1, 6], [7, 2]]"
proof -
  have "fst (convert_linear_position_to_track_distances [example_graph] 0 [1, 7] example_nodes)
      = Inr [[1, 6], [7, 2]]"
    by code_simp
  with shared_graph_not_mutated [of 0 "[example_graph]" "[1, 7]" example_nodes]
  show ?thesis by simp
qed

section \<open>Properties of the shortest path search\<close>

lemma heap_min_mem: "heap_min x xs \<in> set (x # xs)"
  by (induction xs arbitrary: x) auto

lemma heap_min_le: "\<forall>e\<in>set (x # xs). fst (heap_min x xs) \<le> fst e"
proof (induction xs arbitrary: x)
  case Nil
  then show ?case by simp
next
  case (Cons y ys)
  let ?m = "if entry_less y x then y else x"
  have step: "\<forall>z\<in>set (?m # ys). fst (heap_min ?m ys) \<le> fst z"
    by (rule Cons.IH)
  then have low: "fst (heap_min ?m ys) \<le> fst ?m" by simp
  have "fst ?m \<le> fst x" "fst ?m \<le> fst y"
    by (auto simp: entry_less_def)
  with low have "fst (heap_min ?m ys) \<le> fst x" "fst (heap_min ?m ys) \<le> fst y"
    by linarith+
  with step show ?case by simp
qed

lemma relax_entries:
  "relax dists d nbrs (seen, fringe, c) = Inr (seen', fringe', c') \<Longrightarrow> e \<in> set fringe' \<Longrightarrow>
   e \<in> set fringe \<or> (\<exists>(u, cost)\<in>set nbrs. fst e = d + cost \<and> snd (snd e) = u)"
proof (induction nbrs arbitrary: seen fringe c)
  case Nil
  then show ?case by simp
next
  case (Cons p nbrs)
  obtain u cost where p: "p = (u, cost)" by (cases p) auto
  from Cons.prems(1) show ?case
    unfolding p
    by (auto simp: Let_def split: option.splits if_splits dest!: Cons.IH [OF _ Cons.prems(2)])
qed

lemma relax_no_error:
  "\<forall>x\<in>ran dists. x \<le> d \<Longrightarrow> \<forall>(u, cost)\<in>set nbrs. 0 \<le> cost \<Longrightarrow>
   \<exists>st. relax dists d nbrs (seen, fringe, c) = Inr st"
proof (induction nbrs arbitrary: seen fringe c)
  case Nil
  then show ?case by simp
next
  case (Cons p nbrs)
  obtain u cost where p: "p = (u, cost)" by (cases p) auto
  have cost: "0 \<le> cost" using Cons.prems(2) p by auto
  have rest: "\<forall>(u, cost)\<in>set nbrs. 0 \<le> cost" using Cons.prems(2) by auto
  have ok: "\<not> d + cost < x" if "dists u = Some x" for x
  proof -
    from that have "x \<in> ran dists" by (auto simp: ran_def)
    with Cons.prems(1) cost show ?thesis by fastforce
  qed
  show ?case
    unfolding p using Cons.IH [OF Cons.prems(1) rest] ok
    by (auto simp: Let_def split: option.splits)
qed

lemma dijkstra_loop_done: "dijkstra_loop g dists seen [] c = Inr dists"
  by (subst dijkstra_loop.simps) simp

lemma dijkstra_loop_skip:
  "fringe \<noteq> [] \<Longrightarrow> dists (snd (snd (heap_min (hd fringe) (tl fringe)))) \<noteq> None \<Longrightarrow>
   dijkstra_loop g dists seen fringe c =
     dijkstra_loop g dists seen (remove1 (heap_min (hd fringe) (tl fringe)) fringe) c"
  by (subst dijkstra_loop.simps) (simp add: Let_def)

lemma dijkstra_loop_visit:
  assumes "fringe \<noteq> []" and "m = heap_min (hd fringe) (tl fringe)"
    and "dists (snd (snd m)) = None"
  shows "dijkstra_loop g dists seen fringe c =
     (case map_of g (snd (snd m)) of
        None \<Rightarrow> Inl KeyError
      | Some nbrs \<Rightarrow>
          (case relax (dists(snd (snd m) \<mapsto> fst m)) (fst m) nbrs (seen, remove1 m fringe, c) of
             Inl err \<Rightarrow> Inl err
           | Inr st \<Rightarrow>
               dijkstra_loop g (dists(snd (snd m) \<mapsto> fst m)) (fst st) (fst (snd st))
                 (snd (snd st))))"
  unfolding assms(2) using assms(1) assms(3) [unfolded assms(2)]
  by (subst dijkstra_loop.simps) (simp add: Let_def)

lemma dijkstra_loop_closed:
  assumes "dijkstra_loop g dists seen fringe c = Inr res"
    and "\<forall>v\<in>dom dists. P v"
    and "\<forall>e\<in>set fringe. P (snd (snd e))"
    and "\<forall>u nbrs v. P u \<longrightarrow> map_of g u = Some nbrs \<longrightarrow> v \<in> fst ` set nbrs \<longrightarrow> P v"
  shows "\<forall>v\<in>dom res. P v"
  using assms
proof (induction g dists seen fringe c rule: dijkstra_loop.induct)
  case (1 g dists seen fringe c)
  note closed = "1.prems"(4)
  show ?case
  proof (cases "fringe = []")
    case True
    with "1.prems" show ?thesis by (simp add: dijkstra_loop_done)
  next
    case ne: False
    define m where "m = heap_min (hd fringe) (tl fringe)"
    have "m \<in> set (hd fringe # tl fringe)" unfolding m_def by (rule heap_min_mem)
    with ne have m_in: "m \<in> set fringe" by simp
    have sub: "set (remove1 m fringe) \<subseteq> set fringe" by (rule set_remove1_subset)
    have Pv: "P (snd (snd m))" using "1.prems"(3) m_in by simp
    show ?thesis
    proof (cases "dists (snd (snd m)) \<noteq> None")
      case True
      have eq: "dijkstra_loop g dists seen fringe c = dijkstra_loop g dists seen (remove1 m fringe) c"
        using dijkstra_loop_skip [OF ne] True by (simp add: m_def)
      show ?thesis
      proof (rule "1.IH"(1) [OF ne m_def refl refl refl True])
        show "dijkstra_loop g dists seen (remove1 m fringe) c = Inr res"
          using "1.prems"(1) eq by simp
        show "\<forall>v\<in>dom dists. P v" by (rule "1.prems"(2))
        show "\<forall>e\<in>set (remove1 m fringe). P (snd (snd e))" using "1.prems"(3) sub by blast
        show "\<forall>u nbrs v. P u \<longrightarrow> map_of g u = Some nbrs \<longrightarrow> v \<in> fst ` set nbrs \<longrightarrow> P v"
          by (rule closed)
      qed
    next
      case False
      then have unvisited: "dists (snd (snd m)) = None" by simp
      from "1.prems"(1) dijkstra_loop_visit [where g = g and seen = seen and c = c and dists = dists and m = m
          and fringe = fringe, OF ne m_def unvisited]
      obtain nbrs st where
        nb: "map_of g (snd (snd m)) = Some nbrs"
        and rl: "relax (dists(snd (snd m) \<mapsto> fst m)) (fst m) nbrs (seen, remove1 m fringe, c) = Inr st"
        and rec: "dijkstra_loop g (dists(snd (snd m) \<mapsto> fst m)) (fst st) (fst (snd st))
                    (snd (snd st)) = Inr res"
        by (auto split: option.splits sum.splits)
      have rl': "relax (dists(snd (snd m) \<mapsto> fst m)) (fst m) nbrs (seen, remove1 m fringe, c)
          = Inr (fst st, fst (snd st), snd (snd st))"
        using rl by simp
      show ?thesis
      proof (rule "1.IH"(2) [OF ne m_def refl refl refl False nb rl])
        show "dijkstra_loop g (dists(snd (snd m) \<mapsto> fst m)) (fst st) (fst (snd st))
                (snd (snd st)) = Inr res"
          by (rule rec)
        show "\<forall>x\<in>dom (dists(snd (snd m) \<mapsto> fst m)). P x" using "1.prems"(2) Pv by auto
        show "\<forall>e\<in>set (fst (snd st)). P (snd (snd e))"
        proof
          fix e assume "e \<in> set (fst (snd st))"
          from relax_entries [OF rl' this]
          show "P (snd (snd e))"
          proof
            assume "e \<in> set (remove1 m fringe)"
            with sub "1.prems"(3) show ?thesis by blast
          next
            assume "\<exists>(u, cost)\<in>set nbrs. fst e = fst m + cost \<and> snd (snd e) = u"
            then have "snd (snd e) \<in> fst ` set nbrs" by force
            with closed Pv nb show ?thesis by blast
          qed
        qed
        show "\<forall>u nbrs v. P u \<longrightarrow> map_of g u = Some nbrs \<longrightarrow> v \<in> fst ` set nbrs \<longrightarrow> P v"
          by (rule closed)
      qed
    qed
  qed
qed

lemma dijkstra_loop_no_error:
  assumes wf: "well_formed g" and nn: "non_negative g"
    and "\<forall>e\<in>set fringe. snd (snd e) \<in> fst ` set g \<and> (\<forall>x\<in>ran dists. x \<le> fst e)"
  shows "\<exists>res. dijkstra_loop g dists seen fringe c = Inr res"
  using assms
proof (induction g dists seen fringe c rule: dijkstra_loop.induct)
  case (1 g dists seen fringe c)
  note wf = "1.prems"(1) and nn = "1.prems"(2) and inv = "1.prems"(3)
  show ?case
  proof (cases "fringe = []")
    case True
    then show ?thesis by (simp add: dijkstra_loop_done)
  next
    case ne: False
    define m where "m = heap_min (hd fringe) (tl fringe)"
    have "m \<in> set (hd fringe # tl fringe)" unfolding m_def by (rule heap_min_mem)
    with ne have m_in: "m \<in> set fringe" by simp
    have "\<forall>e\<in>set (hd fringe # tl fringe). fst m \<le> fst e" unfolding m_def by (rule heap_min_le)
    with ne have m_le: "\<forall>e\<in>set fringe. fst m \<le> fst e" by simp
    have sub: "set (remove1 m fringe) \<subseteq> set fringe" by (rule set_remove1_subset)
    show ?thesis
    proof (cases "dists (snd (snd m)) \<noteq> None")
      case True
      have eq: "dijkstra_loop g dists seen fringe c = dijkstra_loop g dists seen (remove1 m fringe) c"
        using dijkstra_loop_skip [OF ne] True by (simp add: m_def)
      have "\<exists>res. dijkstra_loop g dists seen (remove1 m fringe) c = Inr res"
        by (rule "1.IH"(1) [OF ne m_def refl refl refl True wf nn]) (use inv sub in blast)
      with eq show ?thesis by simp
    next
      case False
      then have unvisited: "dists (snd (snd m)) = None" by simp
      from inv m_in have "snd (snd m) \<in> fst ` set g" by blast
      then obtain nbrs where nb: "map_of g (snd (snd m)) = Some nbrs"
        by (metis map_of_eq_None_iff not_None_eq)
      then have entry: "(snd (snd m), nbrs) \<in> set g" by (rule map_of_SomeD)
      have costs: "\<forall>(u, cost)\<in>set nbrs. 0 \<le> cost"
        using nn entry unfolding non_negative_def by blast
      have nodes: "\<forall>(u, cost)\<in>set nbrs. u \<in> fst ` set g"
        using wf entry unfolding well_formed_def by blast
      have ran_upd: "ran (dists(snd (snd m) \<mapsto> fst m)) = insert (fst m) (ran dists)"
        using unvisited by simp
      have below: "\<forall>x\<in>ran (dists(snd (snd m) \<mapsto> fst m)). x \<le> fst m"
        unfolding ran_upd using inv m_in by auto
      from relax_no_error [OF below costs, of seen "remove1 m fringe" c]
      obtain st where
        rl: "relax (dists(snd (snd m) \<mapsto> fst m)) (fst m) nbrs (seen, remove1 m fringe, c) = Inr st"
        by blast
      have rl': "relax (dists(snd (snd m) \<mapsto> fst m)) (fst m) nbrs (seen, remove1 m fringe, c)
          = Inr (fst st, fst (snd st), snd (snd st))"
        using rl by simp
      have inv': "\<forall>e\<in>set (fst (snd st)). snd (snd e) \<in> fst ` set g \<and>
          (\<forall>x\<in>ran (dists(snd (snd m) \<mapsto> fst m)). x \<le> fst e)"
      proof
        fix e assume "e \<in> set (fst (snd st))"
        from relax_entries [OF rl' this]
        show "snd (snd e) \<in> fst ` set g \<and> (\<forall>x\<in>ran (dists(snd (snd m) \<mapsto> fst m)). x \<le> fst e)"
        proof
          assume e: "e \<in> set (remove1 m fringe)"
          with sub have e': "e \<in> set fringe" by blast
          with inv m_le show ?thesis unfolding ran_upd by auto
        next
          assume "\<exists>(u, cost)\<in>set nbrs. fst e = fst m + cost \<and> snd (snd e) = u"
          then obtain u cost where uc: "(u, cost) \<in> set nbrs" "fst e = fst m + cost" "snd (snd e) = u"
            by auto
          from uc(1) costs nodes have "0 \<le> cost" "u \<in> fst ` set g" by auto
          with uc below show ?thesis by fastforce
        qed
      qed
      have "\<exists>res. dijkstra_loop g (dists(snd (snd m) \<mapsto> fst m)) (fst st) (fst (snd st))
                (snd (snd st)) = Inr res"
        by (rule "1.IH"(2) [OF ne m_def refl refl refl False nb rl wf nn inv'])
      with dijkstra_loop_visit [where g = g and seen = seen and c = c and dists = dists and m = m
          and fringe = fringe, OF ne m_def unvisited] nb rl show ?thesis by simp
    qed
  qed
qed

lemma reachable_refl: "reachable g u u"
  by (simp add: reachable_def)

lemma reachable_step:
  "reachable g u v \<Longrightarrow> map_of g v = Some nbrs \<Longrightarrow> w \<in> fst ` set nbrs \<Longrightarrow> reachable g u w"
  unfolding reachable_def
  by (erule rtrancl_into_rtrancl) (simp add: neighbours_def)

lemma dijkstra_sound:
  assumes "single_source_dijkstra_path_length g source = Inr dists" and "dists v = Some x"
  shows "reachable g source v"
proof -
  from assms(1) have run: "dijkstra_loop g Map.empty [source \<mapsto> 0] [(0, 0, source)] 1 = Inr dists"
    by (simp add: single_source_dijkstra_path_length_def split: if_splits)
  have "\<forall>v\<in>dom dists. reachable g source v"
    by (rule dijkstra_loop_closed [OF run]) (auto intro: reachable_refl reachable_step)
  with assms(2) show ?thesis by blast
qed

lemma dijkstra_no_error:
  assumes "well_formed g" and "non_negative g" and "source \<in> fst ` set g"
  shows "\<exists>dists. single_source_dijkstra_path_length g source = Inr dists"
proof -
  have "map_of g source \<noteq> None" using assms(3) by (simp add: map_of_eq_None_iff)
  moreover have "\<exists>res. dijkstra_loop g Map.empty [source \<mapsto> 0] [(0, 0, source)] 1 = Inr res"
    by (rule dijkstra_loop_no_error [OF assms(1,2)]) (use assms(3) in simp)
  ultimately show ?thesis by (simp add: single_source_dijkstra_path_length_def)
qed

lemma dijkstra_loop_agree:
  assumes "\<forall>v. v \<notin> J \<longrightarrow> map_of g' v = map_of g v"
    and "\<forall>v nbrs. v \<notin> J \<longrightarrow> map_of g v = Some nbrs \<longrightarrow> fst ` set nbrs \<inter> J = {}"
    and "\<forall>e\<in>set fringe. snd (snd e) \<notin> J"
  shows "dijkstra_loop g' dists seen fringe c = dijkstra_loop g dists seen fringe c"
  using assms
proof (induction g dists seen fringe c rule: dijkstra_loop.induct)
  case (1 g dists seen fringe c)
  note agree = "1.prems"(1) and closed = "1.prems"(2) and fr = "1.prems"(3)
  show ?case
  proof (cases "fringe = []")
    case True
    then show ?thesis by (simp add: dijkstra_loop_done)
  next
    case ne: False
    define m where "m = heap_min (hd fringe) (tl fringe)"
    have "m \<in> set (hd fringe # tl fringe)" unfolding m_def by (rule heap_min_mem)
    with ne have m_in: "m \<in> set fringe" by simp
    have sub: "set (remove1 m fringe) \<subseteq> set fringe" by (rule set_remove1_subset)
    have vJ: "snd (snd m) \<notin> J" using fr m_in by blast
    show ?thesis
    proof (cases "dists (snd (snd m)) \<noteq> None")
      case True
      have "dijkstra_loop g' dists seen (remove1 m fringe) c
          = dijkstra_loop g dists seen (remove1 m fringe) c"
        by (rule "1.IH"(1) [OF ne m_def refl refl refl True agree closed]) (use fr sub in blast)
      then show ?thesis
        using dijkstra_loop_skip [OF ne, of dists g seen c]
          dijkstra_loop_skip [OF ne, of dists g' seen c] True
        by (simp add: m_def)
    next
      case False
      then have unvisited: "dists (snd (snd m)) = None" by simp
      have same: "map_of g' (snd (snd m)) = map_of g (snd (snd m))" using agree vJ by blast
      note v = dijkstra_loop_visit [where seen = seen and c = c and dists = dists and m = m
          and fringe = fringe, OF ne m_def unvisited]
      show ?thesis
      proof (cases "map_of g (snd (snd m))")
        case None
        with same show ?thesis by (simp add: v [of g] v [of g'])
      next
        case (Some nbrs)
        show ?thesis
        proof (cases "relax (dists(snd (snd m) \<mapsto> fst m)) (fst m) nbrs (seen, remove1 m fringe, c)")
          case (Inl e)
          with Some same show ?thesis by (simp add: v [of g] v [of g'])
        next
          case (Inr st)
          have rl': "relax (dists(snd (snd m) \<mapsto> fst m)) (fst m) nbrs (seen, remove1 m fringe, c)
              = Inr (fst st, fst (snd st), snd (snd st))"
            using Inr by simp
          have fr': "\<forall>e\<in>set (fst (snd st)). snd (snd e) \<notin> J"
          proof
            fix e assume "e \<in> set (fst (snd st))"
            from relax_entries [OF rl' this] show "snd (snd e) \<notin> J"
            proof
              assume "e \<in> set (remove1 m fringe)"
              with sub fr show ?thesis by blast
            next
              assume "\<exists>(u, cost)\<in>set nbrs. fst e = fst m + cost \<and> snd (snd e) = u"
              then have "snd (snd e) \<in> fst ` set nbrs" by force
              with closed vJ Some show ?thesis by blast
            qed
          qed
          have "dijkstra_loop g' (dists(snd (snd m) \<mapsto> fst m)) (fst st) (fst (snd st)) (snd (snd st))
              = dijkstra_loop g (dists(snd (snd m) \<mapsto> fst m)) (fst st) (fst (snd st)) (snd (snd st))"
            by (rule "1.IH"(2) [OF ne m_def refl refl refl False Some Inr agree closed fr'])
          with Some same Inr show ?thesis by (simp add: v [of g] v [of g'])
        qed
      qed
    qed
  qed
qed

lemma dijkstra_agree:
  assumes "\<forall>v. v \<notin> J \<longrightarrow> map_of g' v = map_of g v"
    and "\<forall>v nbrs. v \<notin> J \<longrightarrow> map_of g v = Some nbrs \<longrightarrow> fst ` set nbrs \<inter> J = {}"
    and "source \<notin> J"
  shows "single_source_dijkstra_path_length g' source = single_source_dijkstra_path_length g source"
proof -
  have "dijkstra_loop g' Map.empty [source \<mapsto> 0] [(0, 0, source)] 1
      = dijkstra_loop g Map.empty [source \<mapsto> 0] [(0, 0, source)] 1"
    by (rule dijkstra_loop_agree [OF assms(1,2)]) (use assms(3) in simp)
  moreover have "map_of g' source = map_of g source" using assms(1,3) by blast
  ultimately show ?thesis by (simp add: single_source_dijkstra_path_length_def)
qed

section \<open>The graph with the anchor\<close>

lemma keys_add_node: "fst ` set (add_node g n) = insert n (fst ` set g)"
  by (auto simp: add_node_def map_of_eq_None_iff)

lemma well_formed_add_node: "well_formed g \<Longrightarrow> well_formed (add_node g n)"
  unfolding well_formed_def keys_add_node by (auto simp: add_node_def)

lemma non_negative_add_node: "non_negative g \<Longrightarrow> non_negative (add_node g n)"
  unfolding non_negative_def by (auto simp: add_node_def)

lemma set_map_entry:
  "p \<in> set (AList.map_entry k f xs) \<Longrightarrow> p \<in> set xs \<or> (\<exists>v. (k, v) \<in> set xs \<and> p = (k, f v))"
  by (induction xs) (auto split: if_splits)

lemma set_alist_update: "p \<in> set (AList.update k v al) \<Longrightarrow> p = (k, v) \<or> p \<in> set al"
  by (induction al) (auto split: if_splits)

lemma well_formed_map_entry:
  assumes "well_formed g" and "v \<in> fst ` set g"
  shows "well_formed (AList.map_entry u (AList.update v w) g)"
  unfolding well_formed_def dom_map_entry
proof (intro ballI, clarify)
  fix a nbrs b x
  assume "(a, nbrs) \<in> set (AList.map_entry u (AList.update v w) g)" and b: "(b, x) \<in> set nbrs"
  from set_map_entry [OF this(1)] show "b \<in> fst ` set g"
  proof
    assume "(a, nbrs) \<in> set g"
    with assms(1) b show ?thesis unfolding well_formed_def by blast
  next
    assume "\<exists>old. (u, old) \<in> set g \<and> (a, nbrs) = (u, AList.update v w old)"
    then obtain old where old: "(u, old) \<in> set g" "nbrs = AList.update v w old" by auto
    from set_alist_update [OF b [unfolded old(2)]] show ?thesis
    proof
      assume "(b, x) = (v, w)" with assms(2) show ?thesis by simp
    next
      assume "(b, x) \<in> set old"
      with assms(1) old(1) show ?thesis unfolding well_formed_def by blast
    qed
  qed
qed

lemma non_negative_map_entry:
  assumes "non_negative g" and "0 \<le> w"
  shows "non_negative (AList.map_entry u (AList.update v w) g)"
  unfolding non_negative_def
proof (intro ballI, clarify)
  fix a nbrs b x
  assume "(a, nbrs) \<in> set (AList.map_entry u (AList.update v w) g)" and b: "(b, x) \<in> set nbrs"
  from set_map_entry [OF this(1)] show "0 \<le> x"
  proof
    assume "(a, nbrs) \<in> set g"
    with assms(1) b show ?thesis unfolding non_negative_def by blast
  next
    assume "\<exists>old. (u, old) \<in> set g \<and> (a, nbrs) = (u, AList.update v w old)"
    then obtain old where old: "(u, old) \<in> set g" "nbrs = AList.update v w old" by auto
    from set_alist_update [OF b [unfolded old(2)]] show ?thesis
    proof
      assume "(b, x) = (v, w)" with assms(2) show ?thesis by simp
    next
      assume "(b, x) \<in> set old"
      with assms(1) old(1) show ?thesis unfolding non_negative_def by blast
    qed
  qed
qed

lemma keys_add_edge: "fst ` set (add_edge g u v w) = insert u (insert v (fst ` set g))"
  by (auto simp: add_edge_def dom_map_entry keys_add_node)

lemma well_formed_add_edge: "well_formed g \<Longrightarrow> well_formed (add_edge g u v w)"
  unfolding add_edge_def
  by (intro well_formed_map_entry well_formed_add_node)
     (simp_all add: dom_map_entry keys_add_node)

lemma non_negative_add_edge: "non_negative g \<Longrightarrow> 0 \<le> w \<Longrightarrow> non_negative (add_edge g u v w)"
  unfolding add_edge_def
  by (intro non_negative_map_entry non_negative_add_node)

lemma add_path_two: "add_path g [u, v] w = add_edge (add_node g u) u v w"
  by (simp add: add_path_def)

lemma augmented_graph:
  assumes "well_formed g" and "non_negative g" and "0 \<le> ld" and "0 \<le> rd"
  shows "well_formed (add_path (add_path g [l, anchor] ld) [anchor, r] rd)"
    and "non_negative (add_path (add_path g [l, anchor] ld) [anchor, r] rd)"
    and "anchor \<in> fst ` set (add_path (add_path g [l, anchor] ld) [anchor, r] rd)"
  using assms
  by (simp_all add: add_path_two well_formed_add_edge well_formed_add_node
      non_negative_add_edge non_negative_add_node keys_add_edge keys_add_node)

lemma lookup_errors:
  "traverse (\<lambda>n. case dists n of None \<Rightarrow> Inl KeyError | Some d \<Rightarrow> Inr d) ns = Inl e \<Longrightarrow>
   e = KeyError"
  by (auto dest!: traverse_Inl split: option.splits)

lemma lookup_missing:
  "b \<in> set ns \<Longrightarrow> dists b = None \<Longrightarrow>
   traverse (\<lambda>n. case dists n of None \<Rightarrow> Inl KeyError | Some d \<Rightarrow> Inr d) ns = Inl KeyError"
proof (cases "traverse (\<lambda>n. case dists n of None \<Rightarrow> Inl KeyError | Some d \<Rightarrow> Inr d) ns")
  case (Inl e)
  then show ?thesis using lookup_errors by blast
next
  case (Inr ys)
  assume "b \<in> set ns" "dists b = None"
  then obtain i where "i < length ns" "ns ! i = b" by (auto simp: in_set_conv_nth)
  with Inr \<open>dists b = None\<close> show ?thesis by (auto simp: traverse_Inr_iff)
qed

lemma get_distance2_result:
  assumes "well_formed g" and "non_negative g" and "0 \<le> ld" and "0 \<le> rd"
  shows "\<exists>dists. single_source_dijkstra_path_length
                   (add_path (add_path g [l, anchor] ld) [anchor, r] rd) anchor = Inr dists \<and>
           fst (get_distance2 g l r ld rd bin_centers) =
             traverse (\<lambda>n. case dists n of None \<Rightarrow> Inl KeyError | Some d \<Rightarrow> Inr d) bin_centers"
proof -
  let ?B = "add_path (add_path g [l, anchor] ld) [anchor, r] rd"
  note B = augmented_graph [OF assms, of l r]
  from dijkstra_no_error [OF B] obtain dists where
    d: "single_source_dijkstra_path_length ?B anchor = Inr dists" by blast
  from B(3) obtain nbrs where "map_of ?B anchor = Some nbrs"
    by (metis map_of_eq_None_iff not_None_eq)
  then obtain g3 where "remove_node ?B anchor = Inr g3" by (simp add: remove_node_def)
  with d show ?thesis by (simp add: get_distance2_def Let_def)
qed

lemma get_distance2_errors:
  assumes "well_formed g" and "non_negative g" and "0 \<le> ld" and "0 \<le> rd"
    and "fst (get_distance2 g l r ld rd bin_centers) = Inl e"
  shows "e = KeyError"
  using get_distance2_result [OF assms(1-4), of l r bin_centers] assms(5) lookup_errors
  by metis

lemma get_distance2_unreachable:
  assumes "well_formed g" and "non_negative g" and "0 \<le> ld" and "0 \<le> rd"
    and "b \<in> set bin_centers"
    and "\<not> reachable (add_path (add_path g [l, anchor] ld) [anchor, r] rd) anchor b"
  shows "fst (get_distance2 g l r ld rd bin_centers) = Inl KeyError"
proof -
  from get_distance2_result [OF assms(1-4), of l r bin_centers] obtain dists where
    d: "single_source_dijkstra_path_length
          (add_path (add_path g [l, anchor] ld) [anchor, r] rd) anchor = Inr dists"
    and r: "fst (get_distance2 g l r ld rd bin_centers) =
             traverse (\<lambda>n. case dists n of None \<Rightarrow> Inl KeyError | Some d \<Rightarrow> Inr d) bin_centers"
    by blast
  have "dists b = None"
    using dijkstra_sound [OF d] assms(6) by (cases "dists b") auto
  with r assms(5) show ?thesis by (simp add: lookup_missing)
qed

section \<open>Looking up the adjacency of a changed graph\<close>

lemma map_of_add_node:
  "map_of (add_node g n) x = (if x = n \<and> map_of g n = None then Some [] else map_of g x)"
  by (auto simp: add_node_def map_add_def split: option.splits)

lemma map_of_map_entry_at:
  "map_of (AList.map_entry k f g) x = (if x = k then map_option f (map_of g k) else map_of g x)"
  by (simp add: map_of_map_entry split: option.splits)

lemma map_of_add_edge:
  "map_of (add_edge g u v w) x =
     (if x = u \<or> x = v
      then Some ((if x = v then AList.update u w else id)
                  ((if x = u then AList.update v w else id)
                    (case map_of g x of None \<Rightarrow> [] | Some al \<Rightarrow> al)))
      else map_of g x)"
  by (simp add: add_edge_def map_of_map_entry_at map_of_add_node split: option.splits)

lemma map_of_add_path_two:
  "map_of (add_path g [u, v] w) x =
     (if x = u \<or> x = v
      then Some ((if x = v then AList.update u w else id)
                  ((if x = u then AList.update v w else id)
                    (case map_of g x of None \<Rightarrow> [] | Some al \<Rightarrow> al)))
      else map_of g x)"
  by (simp add: add_path_two map_of_add_edge map_of_add_node split: option.splits)

lemma map_of_fold_delete:
  "map_of (fold (\<lambda>u. AList.map_entry u (AList.delete n)) us g) x =
     (if x \<in> set us then map_option (AList.delete n) (map_of g x) else map_of g x)"
proof (induction us arbitrary: g)
  case Nil
  then show ?case by simp
next
  case (Cons u us)
  show ?case
    by (simp add: Cons.IH map_of_map_entry_at option.map_comp comp_def delete_idem)
qed

lemma remove_node_lookup:
  assumes "map_of g n = Some nbrs"
  shows "\<exists>g3. remove_node g n = Inr g3 \<and>
           (\<forall>x. map_of g3 x =
              (if x = n then None
               else if x \<in> fst ` set nbrs then map_option (AList.delete n) (map_of g x)
               else map_of g x))"
  using assms by (simp add: remove_node_def delete_conv' map_of_fold_delete)

lemma well_formed_lookup:
  assumes "well_formed g" and "map_of g x = Some al" and "u \<in> fst ` set al"
  shows "map_of g u \<noteq> None"
proof -
  from assms(2) have "(x, al) \<in> set g" by (rule map_of_SomeD)
  moreover from assms(3) obtain w where "(u, w) \<in> set al" by auto
  ultimately have "u \<in> fst ` set g" using assms(1) unfolding well_formed_def by blast
  then show ?thesis by (simp add: map_of_eq_None_iff)
qed

lemma well_formed_augmented:
  "well_formed g \<Longrightarrow> well_formed (add_path (add_path g [l, anchor] ld) [anchor, r] rd)"
  by (simp add: add_path_two well_formed_add_edge well_formed_add_node)

lemma anchor_in_augmented:
  "map_of (add_path (add_path g [l, anchor] ld) [anchor, r] rd) anchor \<noteq> None"
  by (simp add: map_of_add_path_two)

section \<open>Solving on a copy that was used before\<close>

lemma augmented_extension:
  assumes "isolated_extension g g'"
  shows "map_of (add_path (add_path g' [l, anchor] ld) [anchor, r] rd) x
           = map_of (add_path (add_path g [l, anchor] ld) [anchor, r] rd) x \<or>
         (map_of (add_path (add_path g [l, anchor] ld) [anchor, r] rd) x = None \<and>
          map_of (add_path (add_path g' [l, anchor] ld) [anchor, r] rd) x = Some [])"
proof -
  from assms have "map_of g' x = map_of g x \<or> (map_of g x = None \<and> map_of g' x = Some [])"
    unfolding isolated_extension_def by blast
  then show ?thesis
  proof
    assume "map_of g' x = map_of g x"
    then show ?thesis
      by (cases "x = l"; cases "x = r"; cases "x = anchor"; simp add: map_of_add_path_two)
  next
    assume "map_of g x = None \<and> map_of g' x = Some []"
    then show ?thesis
      by (cases "x = l"; cases "x = r"; cases "x = anchor"; simp add: map_of_add_path_two)
  qed
qed

lemma get_distance2_extension:
  assumes wf: "well_formed g" and ext: "isolated_extension g g'"
  shows "fst (get_distance2 g' l r ld rd bin_centers) = fst (get_distance2 g l r ld rd bin_centers)"
proof -
  let ?B = "add_path (add_path g [l, anchor] ld) [anchor, r] rd"
  let ?B' = "add_path (add_path g' [l, anchor] ld) [anchor, r] rd"
  define J where "J = {x. map_of ?B x = None \<and> map_of ?B' x = Some []}"
  have agree: "\<forall>v. v \<notin> J \<longrightarrow> map_of ?B' v = map_of ?B v"
    using augmented_extension [OF ext, of l ld r rd] unfolding J_def by blast
  have closed: "\<forall>v nbrs. v \<notin> J \<longrightarrow> map_of ?B v = Some nbrs \<longrightarrow> fst ` set nbrs \<inter> J = {}"
  proof (intro allI impI)
    fix v nbrs assume "map_of ?B v = Some nbrs"
    then have "\<forall>u\<in>fst ` set nbrs. map_of ?B u \<noteq> None"
      using well_formed_lookup [OF well_formed_augmented [OF wf]] by blast
    then show "fst ` set nbrs \<inter> J = {}" unfolding J_def by blast
  qed
  have src: "anchor \<notin> J" unfolding J_def using anchor_in_augmented by simp
  have d: "single_source_dijkstra_path_length ?B' anchor = single_source_dijkstra_path_length ?B anchor"
    by (rule dijkstra_agree [OF agree closed src])
  obtain g3 g3' where "remove_node ?B anchor = Inr g3" "remove_node ?B' anchor = Inr g3'"
    using anchor_in_augmented [of g l ld r rd] anchor_in_augmented [of g' l ld r rd]
    by (auto simp: remove_node_def)
  with d show ?thesis
    by (simp add: get_distance2_def Let_def split: sum.splits)
qed

lemma get_distance2_leaves_extension:
  assumes wf: "well_formed g" and af: "anchor \<notin> fst ` set g" and ext: "isolated_extension g g'"
    and ok: "fst (get_distance2 g' l r ld rd bin_centers) = Inr row"
  shows "isolated_extension g (snd (get_distance2 g' l r ld rd bin_centers))"
proof -
  let ?A' = "add_path g' [l, anchor] ld"
  let ?B' = "add_path ?A' [anchor, r] rd"
  have a0: "map_of g anchor = None" using af by (simp add: map_of_eq_None_iff)
  have a0': "map_of g' anchor = None" using ext by (simp add: isolated_extension_def)
  have na: "anchor \<notin> fst ` set al" if "map_of g x = Some al" for x al
    using well_formed_lookup [OF wf that, of anchor] a0 by blast
  define nbrs where "nbrs = (if anchor = r then AList.update anchor rd else id)
      (AList.update r rd (AList.update l ld ((if anchor = l then AList.update anchor ld else id) [])))"
  have lookB: "map_of ?B' anchor = Some nbrs"
    by (simp add: map_of_add_path_two a0' nbrs_def)
  have keys: "fst ` set nbrs = {l, r}"
    by (auto simp: nbrs_def dom_update)
  from remove_node_lookup [OF lookB] obtain g3 where
    rm: "remove_node ?B' anchor = Inr g3"
    and look3: "\<And>x. map_of g3 x =
              (if x = anchor then None
               else if x \<in> fst ` set nbrs then map_option (AList.delete anchor) (map_of ?B' x)
               else map_of ?B' x)"
    by blast
  from ok rm have snd_eq: "snd (get_distance2 g' l r ld rd bin_centers) = g3"
    by (auto simp: get_distance2_def Let_def split: sum.splits)
  have "map_of g3 x = map_of g x \<or> (map_of g x = None \<and> map_of g3 x = Some [])" for x
  proof (cases "x = anchor")
    case True
    then show ?thesis by (simp add: look3 a0)
  next
    case False
    from ext have base: "map_of g' x = map_of g x \<or> (map_of g x = None \<and> map_of g' x = Some [])"
      unfolding isolated_extension_def by blast
    define al where "al = (case map_of g' x of None \<Rightarrow> [] | Some al \<Rightarrow> al)"
    have al_g: "map_of g x = Some al \<or> (map_of g x = None \<and> al = [])"
      using base by (auto simp: al_def split: option.splits)
    then have al_free: "anchor \<notin> fst ` set al"
    proof
      assume "map_of g x = Some al"
      then show ?thesis by (rule na)
    next
      assume "map_of g x = None \<and> al = []"
      then show ?thesis by simp
    qed
    show ?thesis
    proof (cases "x \<in> {l, r}")
      case True
      have "\<exists>d e. map_of ?B' x = Some (AList.update anchor d al) \<or>
                  map_of ?B' x = Some (AList.update anchor d (AList.update anchor e al))"
        using True False by (auto simp: map_of_add_path_two al_def)
      then have "map_option (AList.delete anchor) (map_of ?B' x) = Some al"
        using al_free by (auto simp: delete_update_same)
      with True False keys al_g show ?thesis by (auto simp: look3)
    next
      case out: False
      then have "map_of ?B' x = map_of g' x" using False by (simp add: map_of_add_path_two)
      with out False keys base show ?thesis by (simp add: look3)
    qed
  qed
  moreover have "map_of g3 anchor = None" by (simp add: look3)
  ultimately show ?thesis unfolding snd_eq isolated_extension_def by blast
qed

lemma isolated_extension_refl: "anchor \<notin> fst ` set g \<Longrightarrow> isolated_extension g g"
  by (simp add: isolated_extension_def map_of_eq_None_iff)

section \<open>Batches against single positions\<close>

lemma setup_distance_lengths:
  assumes "setup_distance positions nodes_df = Inr (lid, rid, ld, rd, pbc)"
  shows "length lid = length positions" and "length rid = length positions"
    and "length ld = length positions" and "length rd = length positions"
    and "\<forall>x\<in>set ld. 0 \<le> x" and "\<forall>x\<in>set rd. 0 \<le> x"
proof -
  define bin_ind where
    "bin_ind = map (\<lambda>p. int (searchsorted (map linear_position nodes_df) p)) positions"
  from assms obtain left_rows right_rows where
    lr: "traverse (\<lambda>i. take_index nodes_df (i - 1)) bin_ind = Inr left_rows"
    and rr: "traverse (\<lambda>i. take_index nodes_df i) bin_ind = Inr right_rows"
    unfolding setup_distance_def bin_ind_def [symmetric] Let_def
    by (auto split: sum.splits if_splits)
  define items where
    "items = zip (map2 (\<lambda>l r. edge_id l = edge_id r) left_rows right_rows) (zip bin_ind positions)"
  define left_ind where
    "left_ind = map (\<lambda>(same, i, p). left_node_ind nodes_df same i p) items"
  define right_ind where
    "right_ind = map (\<lambda>(same, i, p). right_node_ind nodes_df same i p) items"
  from assms lr rr obtain left_position where
    ids: "traverse (take_index (map node_ids nodes_df)) left_ind = Inr lid"
    and rids: "traverse (take_index (map node_ids nodes_df)) right_ind = Inr rid"
    and lps: "traverse (take_index (map linear_position nodes_df)) left_ind = Inr left_position"
    and ld: "ld = map2 (\<lambda>x p. \<bar>x - p\<bar>) left_position positions"
    and rd: "rd = map2 (\<lambda>x p. \<bar>x - p\<bar>) left_position positions"
    unfolding setup_distance_def bin_ind_def [symmetric] Let_def left_ind_def right_ind_def
      items_def
    by (auto split: sum.splits if_splits)
  have len_bin: "length bin_ind = length positions" by (simp add: bin_ind_def)
  have len_rows: "length left_rows = length positions" "length right_rows = length positions"
    using lr rr len_bin by (simp_all add: traverse_Inr_iff)
  have len_items: "length items = length positions"
    by (simp add: items_def len_rows len_bin)
  have len_ind: "length left_ind = length positions" "length right_ind = length positions"
    by (simp_all add: left_ind_def right_ind_def len_items)
  from traverse_length [OF ids] len_ind show "length lid = length positions" by simp
  from traverse_length [OF rids] len_ind show "length rid = length positions" by simp
  from traverse_length [OF lps] len_ind have "length left_position = length positions" by simp
  then show "length ld = length positions" "length rd = length positions" by (simp_all add: ld rd)
  show "\<forall>x\<in>set ld. 0 \<le> x" "\<forall>x\<in>set rd. 0 \<le> x"
    by (auto simp: ld rd dest!: set_zip_leftD)
qed

lemma stack_rows_pure:
  assumes "well_formed g" and "anchor \<notin> fst ` set g"
    and "q < length s" and "isolated_extension g (s ! q)"
  shows "fst (stack_rows s q items bin_centers) = traverse (solve_position g bin_centers) items"
  using assms(3,4)
proof (induction items arbitrary: s)
  case Nil
  then show ?case by simp
next
  case (Cons it items)
  obtain l r ld rd where it: "it = (l, r, ld, rd)" by (cases it) auto
  obtain res g' where gd: "get_distance2 (s ! q) l r ld rd bin_centers = (res, g')"
    by (cases "get_distance2 (s ! q) l r ld rd bin_centers") auto
  have res: "solve_position g bin_centers (l, r, ld, rd) = res"
    using get_distance2_extension [OF assms(1) Cons.prems(2), of l r ld rd bin_centers] gd
    by (simp add: solve_position_def)
  show ?case
  proof (cases res)
    case (Inl e)
    with gd it res show ?thesis by simp
  next
    case (Inr row)
    have "isolated_extension g g'"
      using get_distance2_leaves_extension [OF assms(1,2) Cons.prems(2), of l r ld rd bin_centers row]
        gd Inr by simp
    then have ext: "isolated_extension g (s[q := g'] ! q)" using Cons.prems(1) by simp
    have "fst (stack_rows (s[q := g']) q items bin_centers)
        = traverse (solve_position g bin_centers) items"
      by (rule Cons.IH [OF _ ext]) (use Cons.prems(1) in simp)
    with gd it res Inr show ?thesis
      by (cases "stack_rows (s[q := g']) q items bin_centers") (auto split: sum.splits)
  qed
qed

lemma batch_distance_pure:
  assumes "well_formed (s ! tg)" and "anchor \<notin> fst ` set (s ! tg)"
  shows "fst (batch_distance s tg lid rid ld rd bin_centers) =
           (case traverse (solve_position (s ! tg) bin_centers) (zip lid (zip rid (zip ld rd))) of
              Inl e \<Rightarrow> Inl e
            | Inr rows \<Rightarrow> if rows = [] then Inl ValueError else Inr rows)"
proof -
  let ?items = "zip lid (zip rid (zip ld rd))"
  have "fst (stack_rows (s @ [s ! tg]) (length s) ?items bin_centers)
      = traverse (solve_position (s ! tg) bin_centers) ?items"
    by (rule stack_rows_pure [OF assms]) (simp_all add: isolated_extension_refl [OF assms(2)])
  then show ?thesis
    by (cases "stack_rows (s @ [s ! tg]) (length s) ?items bin_centers")
       (auto simp: batch_distance_def Let_def split: sum.splits)
qed

lemma zip_nths:
  "zip (map ((!) a) ti) (zip (map ((!) b) ti) (zip (map ((!) c) ti) (map ((!) d) ti)))
     = map (\<lambda>i. (a ! i, b ! i, c ! i, d ! i)) ti"
  by (induction ti) auto

lemma compute_batches_pure:
  assumes "well_formed (s ! tg)" and "anchor \<notin> fst ` set (s ! tg)" and "tg < length s"
  shows "fst (compute_batches s tg lid rid ld rd bin_centers time_inds) =
           traverse (\<lambda>ti.
              case traverse (\<lambda>i. solve_position (s ! tg) bin_centers (lid ! i, rid ! i, ld ! i, rd ! i)) ti of
                Inl e \<Rightarrow> Inl e
              | Inr rows \<Rightarrow> if rows = [] then Inl ValueError else Inr rows) time_inds"
  using assms
proof (induction time_inds arbitrary: s)
  case Nil
  then show ?case by simp
next
  case (Cons ti rest)
  let ?g = "s ! tg"
  let ?b = "batch_distance s tg (map ((!) lid) ti) (map ((!) rid) ti)
             (map ((!) ld) ti) (map ((!) rd) ti) bin_centers"
  let ?block = "\<lambda>ti. case traverse (\<lambda>i. solve_position ?g bin_centers (lid ! i, rid ! i, ld ! i, rd ! i)) ti of
                Inl e \<Rightarrow> Inl e
              | Inr rows \<Rightarrow> if rows = [] then Inl ValueError else Inr rows"
  have head: "fst ?b = ?block ti"
    unfolding batch_distance_pure [OF Cons.prems(1,2)] zip_nths traverse_map ..
  obtain g' where b: "snd ?b = s @ [g']" using batch_distance_frame by blast
  have same: "(s @ [g']) ! tg = ?g" using Cons.prems(3) by (simp add: nth_append)
  have tail: "fst (compute_batches (s @ [g']) tg lid rid ld rd bin_centers rest) = traverse ?block rest"
    using Cons.IH [of "s @ [g']"] Cons.prems unfolding same by simp
  show ?case
  proof (cases "fst ?b")
    case (Inl e)
    with head show ?thesis by (cases ?b) auto
  next
    case (Inr block)
    with head b tail show ?thesis
      by (cases ?b; cases "compute_batches (s @ [g']) tg lid rid ld rd bin_centers rest")
         (auto split: sum.splits)
  qed
qed

lemma upt_split: "i \<le> j \<Longrightarrow> j \<le> k \<Longrightarrow> [i..<j] @ [j..<k] = [i..<(k::nat)]"
  by (metis le_Suc_ex upt_add_eq_append)

lemma batch_from_stop: "n_samples \<le> ind \<Longrightarrow> batch_from ind n_samples batch_size = []"
  by (subst batch_from.simps) simp

lemma batch_from_step:
  "0 < batch_size \<Longrightarrow> ind < n_samples \<Longrightarrow>
   batch_from ind n_samples batch_size =
     [ind..<min (ind + batch_size) n_samples] # batch_from (ind + batch_size) n_samples batch_size"
  by (subst batch_from.simps) simp

lemma concat_batch_from:
  "0 < batch_size \<Longrightarrow> concat (batch_from ind n_samples batch_size) = [ind..<n_samples]"
proof (induction ind n_samples batch_size rule: batch_from.induct)
  case (1 ind n_samples batch_size)
  show ?case
  proof (cases "n_samples \<le> ind")
    case True
    then show ?thesis by (simp add: batch_from_stop)
  next
    case False
    with "1.prems" "1.IH" have
      IH: "concat (batch_from (ind + batch_size) n_samples batch_size) = [ind + batch_size..<n_samples]"
      by simp
    have "[ind..<min (ind + batch_size) n_samples] @ [ind + batch_size..<n_samples] = [ind..<n_samples]"
    proof (cases "ind + batch_size \<le> n_samples")
      case True
      then show ?thesis by (simp add: min_def upt_split)
    next
      case False
      then show ?thesis by (simp add: min_def)
    qed
    with IH False "1.prems" show ?thesis by (simp add: batch_from_step)
  qed
qed

lemma batch_from_nonempty:
  "0 < batch_size \<Longrightarrow> \<forall>ti\<in>set (batch_from ind n_samples batch_size). ti \<noteq> []"
proof (induction ind n_samples batch_size rule: batch_from.induct)
  case (1 ind n_samples batch_size)
  show ?case
  proof (cases "n_samples \<le> ind")
    case True
    then show ?thesis by (simp add: batch_from_stop)
  next
    case False
    with "1.prems" "1.IH" have
      "\<forall>ti\<in>set (batch_from (ind + batch_size) n_samples batch_size). ti \<noteq> []" by simp
    with False "1.prems" show ?thesis by (simp add: batch_from_step)
  qed
qed

lemma batch_from_empty:
  "0 < batch_size \<Longrightarrow> batch_from 0 n_samples batch_size = [] \<longleftrightarrow> n_samples = 0"
  by (cases "n_samples = 0") (simp_all add: batch_from_stop batch_from_step)

lemma zip_by_index:
  assumes "length a = n" and "length b = n" and "length c = n" and "length d = n"
  shows "map (\<lambda>i. (a ! i, b ! i, c ! i, d ! i)) [0..<n] = zip a (zip b (zip c d))"
  using assms by (intro nth_equalityI) simp_all

lemma fst_batched_result:
  "fst (case r of
          (Inl e, s') \<Rightarrow> (Inl e, s')
        | (Inr blocks, s') \<Rightarrow>
            if blocks = [] then (Inl ValueError, s') else (Inr (concat blocks), s')) =
   (case fst r of
      Inl e \<Rightarrow> Inl e
    | Inr blocks \<Rightarrow> if blocks = [] then Inl ValueError else Inr (concat blocks))"
  by (cases r) (auto split: sum.splits)

lemma track_distances_batched_pure:
  assumes wf: "well_formed (s ! tg)" and af: "anchor \<notin> fst ` set (s ! tg)"
    and tg: "tg < length s" and bs: "0 < batch_size"
  shows "fst (track_distances_batched batch_size s tg positions nodes_df) =
           solve_each (s ! tg) positions nodes_df"
proof (cases "setup_distance positions nodes_df")
  case (Inl e)
  then show ?thesis by (simp add: track_distances_batched_def solve_each_def)
next
  case (Inr t)
  obtain lid rid ld rd pbc where t: "t = (lid, rid, ld, rd, pbc)" by (cases t) auto
  note ok = Inr [unfolded t]
  note shape = setup_distance_lengths [OF ok]
  let ?n = "length positions"
  let ?g = "s ! tg"
  let ?tis = "batch_from 0 ?n (nat batch_size)"
  let ?R = "\<lambda>i. solve_position ?g pbc (lid ! i, rid ! i, ld ! i, rd ! i)"
  let ?block = "\<lambda>ti. case traverse ?R ti of
                  Inl e \<Rightarrow> Inl e
                | Inr rows \<Rightarrow> if rows = [] then Inl ValueError else Inr rows"
  have nbs: "0 < nat batch_size" using bs by simp
  have b: "batch ?n batch_size = Inr ?tis" using bs by (simp add: batch_def)
  have cb: "fst (compute_batches s tg lid rid ld rd pbc ?tis) = traverse ?block ?tis"
    by (rule compute_batches_pure [OF wf af tg])
  have lhs: "fst (track_distances_batched batch_size s tg positions nodes_df) =
      (case traverse ?block ?tis of
         Inl e \<Rightarrow> Inl e
       | Inr blocks \<Rightarrow> if blocks = [] then Inl ValueError else Inr (concat blocks))"
    unfolding track_distances_batched_def ok b
    by (simp add: fst_batched_result cb)
  show ?thesis
  proof (cases "positions = []")
    case True
    then have "?tis = []" by (simp add: batch_from_stop)
    with True lhs ok show ?thesis by (simp add: solve_each_def)
  next
    case False
    then have ne: "?tis \<noteq> []" using batch_from_empty [OF nbs, of ?n] by simp
    have items: "traverse ?R (concat ?tis) =
        traverse (solve_position ?g pbc) (zip lid (zip rid (zip ld rd)))"
      unfolding concat_batch_from [OF nbs]
      using traverse_map [of "solve_position ?g pbc" "\<lambda>i. (lid ! i, rid ! i, ld ! i, rd ! i)" "[0..<?n]"]
        zip_by_index [OF shape(1-4)]
      by simp
    have "(case traverse ?block ?tis of
         Inl e \<Rightarrow> Inl e
       | Inr blocks \<Rightarrow> if blocks = [] then Inl ValueError else Inr (concat blocks)) =
      (case traverse ?block ?tis of Inl e \<Rightarrow> Inl e | Inr blocks \<Rightarrow> Inr (concat blocks))"
      using ne by (auto split: sum.splits dest: traverse_length)
    also have "\<dots> = traverse ?R (concat ?tis)"
      by (rule traverse_blocks [OF batch_from_nonempty [OF nbs]])
    finally show ?thesis using lhs items False ok by (simp add: solve_each_def)
  qed
qed

text \<open>
  Claim C7 as stated fails when the track graph has a node named \<open>'a'\<close>:
  removing the anchor removes that node with its edges from the copy, so the
  second position of a batch sees another graph.  With batch size 1 the two
  rows are computed; with batch size 10000 the call raises.
\<close>

theorem batch_size_matters_with_anchor_node:
  "fst (track_distances_batched 1 [anchor_graph] 0 [1, 1] anchor_nodes) = Inr [[1, 5], [1, 5]] \<and>
   fst (convert_linear_position_to_track_distances [anchor_graph] 0 [1, 1] anchor_nodes)
     = Inl KeyError"
  by code_simp

text \<open>
  Claim C7, amended.  For a track graph that has no node named \<open>'a'\<close> (a
  networkx graph: every neighbour is a node), every positive batch size gives
  the result of batch size 1, the batch size 10000 of the source included:
  the rows of the positions solved one by one on the caller's graph, in the
  order of the positions, or the first error.
\<close>

theorem batch_size_invariance:
  assumes "well_formed (s ! track_graph)" and "anchor \<notin> fst ` set (s ! track_graph)"
    and "track_graph < length s" and "0 < batch_size"
  shows "fst (track_distances_batched batch_size s track_graph positions nodes_df) =
           fst (track_distances_batched 1 s track_graph positions nodes_df) \<and>
         fst (convert_linear_position_to_track_distances s track_graph positions nodes_df) =
           fst (track_distances_batched 1 s track_graph positions nodes_df) \<and>
         fst (track_distances_batched 1 s track_graph positions nodes_df) =
           solve_each (s ! track_graph) positions nodes_df"
  using track_distances_batched_pure [OF assms(1-3), of batch_size positions] assms(4)
    track_distances_batched_pure [OF assms(1-3), of 1 positions]
    track_distances_batched_pure [OF assms(1-3), of 10000 positions]
  by (simp add: convert_linear_position_to_track_distances_def)

theorem batch_size_invariance_witness:
  "fst (track_distances_batched 2 [example_graph] 0 [1, 7] example_nodes) =
     fst (track_distances_batched 1 [example_graph] 0 [1, 7] example_nodes) \<and>
   fst (convert_linear_position_to_track_distances [example_graph] 0 [1, 7] example_nodes) =
     fst (track_distances_batched 1 [example_graph] 0 [1, 7] example_nodes) \<and>
   fst (track_distances_batched 1 [example_graph] 0 [1, 7] example_nodes) =
     solve_each ([example_graph] ! 0) [1, 7] example_nodes \<and>
   fst (track_distances_batched 1 [example_graph] 0 [1, 7] example_nodes) = Inr [[1, 6], [7, 2]]"
proof -
  have wf: "well_formed ([example_graph] ! 0)" by (simp add: well_formed_def example_graph_def)
  have af: "anchor \<notin> fst ` set ([example_graph] ! 0)" by (simp add: example_graph_def anchor_def)
  have val: "fst (track_distances_batched 1 [example_graph] 0 [1, 7] example_nodes)
      = Inr [[1, 6], [7, 2]]"
    by code_simp
  from batch_size_invariance [OF wf af, of 2 "[1, 7]" example_nodes] val show ?thesis by simp
qed

section \<open>Unreachable bin centres\<close>

text \<open>
  Claim C5 as stated fails: on the track whose bin centre at 10 is cut off the
  call raises \<open>KeyError\<close>, the error of the dictionary lookup, and not
  \<open>GraphTopologyError\<close>.
\<close>

theorem unreachable_bin_center_not_topology_error:
  "fst (convert_linear_position_to_track_distances [split_graph] 0 [1] example_nodes)
     = Inl KeyError \<and> KeyError \<noteq> GraphTopologyError"
  by code_simp

text \<open>
  Claim C5, amended.  On a track graph with non-negative distances and no node
  named \<open>'a'\<close>, whenever a bin centre is not reachable from the anchor
  inserted for some position, the whole call fails with \<open>KeyError\<close>: no
  row and no infinite distance is returned.
\<close>

theorem unreachable_bin_center_raises_key_error:
  assumes "well_formed (s ! track_graph)" and "non_negative (s ! track_graph)"
    and "anchor \<notin> fst ` set (s ! track_graph)" and "track_graph < length s"
    and "setup_distance positions nodes_df =
           Inr (left_node_id, right_node_id, left_dist, right_dist, bin_centers)"
    and "i < length positions" and "b \<in> set bin_centers"
    and "\<not> reachable
             (add_path (add_path (s ! track_graph) [left_node_id ! i, anchor] (left_dist ! i))
                [anchor, right_node_id ! i] (right_dist ! i)) anchor b"
  shows "fst (convert_linear_position_to_track_distances s track_graph positions nodes_df)
           = Inl KeyError"
proof -
  let ?g = "s ! track_graph"
  let ?items = "zip left_node_id (zip right_node_id (zip left_dist right_dist))"
  note shape = setup_distance_lengths [OF assms(5)]
  have ne: "positions \<noteq> []" using assms(6) by auto
  have "fst (convert_linear_position_to_track_distances s track_graph positions nodes_df)
      = solve_each ?g positions nodes_df"
    unfolding convert_linear_position_to_track_distances_def
    by (rule track_distances_batched_pure [OF assms(1,3,4)]) simp
  also have "\<dots> = traverse (solve_position ?g bin_centers) ?items"
    using assms(5) ne by (simp add: solve_each_def)
  also have "\<dots> = Inl KeyError"
  proof (rule traverse_only_error)
    show "\<forall>x\<in>set ?items. \<forall>e. solve_position ?g bin_centers x = Inl e \<longrightarrow> e = KeyError"
    proof (clarify)
      fix l r ld rd e
      assume mem: "(l, r, ld, rd) \<in> set ?items"
        and err: "solve_position ?g bin_centers (l, r, ld, rd) = Inl e"
      from mem have "(r, ld, rd) \<in> set (zip right_node_id (zip left_dist right_dist))"
        by (rule set_zip_rightD)
      then have "(ld, rd) \<in> set (zip left_dist right_dist)" by (rule set_zip_rightD)
      then have "ld \<in> set left_dist" "rd \<in> set right_dist"
        by (auto dest: set_zip_leftD set_zip_rightD)
      with shape(5,6) have "0 \<le> ld" "0 \<le> rd" by auto
      from get_distance2_errors [OF assms(1,2) this] err
      show "e = KeyError" by (simp add: solve_position_def)
    qed
    let ?x = "(left_node_id ! i, right_node_id ! i, left_dist ! i, right_dist ! i)"
    have len: "i < length ?items" using assms(6) shape(1-4) by simp
    then have "?items ! i = ?x" by simp
    with len show "?x \<in> set ?items" by (metis nth_mem)
    have "0 \<le> left_dist ! i" "0 \<le> right_dist ! i"
      using shape(3-6) assms(6) by (auto simp: all_set_conv_all_nth)
    from get_distance2_unreachable [OF assms(1,2) this assms(7,8)]
    show "solve_position ?g bin_centers ?x = Inl KeyError" by (simp add: solve_position_def)
  qed
  finally show ?thesis .
qed

lemma split_graph_setup:
  "setup_distance [1] example_nodes = Inr ([Id 0], [Id 1], [1], [1], [Id 0, Id 2])"
  by (simp add: setup_distance_def example_nodes_def searchsorted_def take_index_def
      left_node_ind_def right_node_ind_def place_bin_center_to_node_id_def)

lemma split_graph_augmented:
  "add_path (add_path split_graph [Id 0, anchor] 1) [anchor, Id 1] 1 =
     [(Id 0, [(Id 1, 5), (anchor, 1)]), (Id 1, [(Id 0, 5), (anchor, 1)]), (Id 2, []),
      (anchor, [(Id 0, 1), (Id 1, 1)])]"
  by (simp add: split_graph_def add_path_def add_edge_def add_node_def anchor_def)

lemma split_graph_cut:
  "\<not> reachable (add_path (add_path split_graph [Id 0, anchor] 1) [anchor, Id 1] 1) anchor (Id 2)"
proof
  assume "reachable (add_path (add_path split_graph [Id 0, anchor] 1) [anchor, Id 1] 1) anchor (Id 2)"
  then have "(anchor, Id 2) \<in> {(x, y). y \<in> neighbours
      [(Id 0, [(Id 1, 5), (anchor, 1)]), (Id 1, [(Id 0, 5), (anchor, 1)]), (Id 2, []),
       (anchor, [(Id 0, 1), (Id 1, 1)])] x}\<^sup>*"
    unfolding reachable_def split_graph_augmented .
  then have "Id 2 \<in> {anchor, Id 0, Id 1}"
    by (induction rule: rtrancl_induct) (auto simp: neighbours_def anchor_def split: if_splits)
  then show False by (simp add: anchor_def)
qed

theorem unreachable_bin_center_raises_key_error_witness:
  "fst (convert_linear_position_to_track_distances [split_graph] 0 [1] example_nodes)
     = Inl KeyError"
proof -
  have wf: "well_formed ([split_graph] ! 0)" by (simp add: well_formed_def split_graph_def)
  have nn: "non_negative ([split_graph] ! 0)" by (simp add: non_negative_def split_graph_def)
  have af: "anchor \<notin> fst ` set ([split_graph] ! 0)" by (simp add: split_graph_def anchor_def)
  have cut: "\<not> reachable
      (add_path (add_path ([split_graph] ! 0) [[Id 0] ! 0, anchor] ([1] ! 0))
         [anchor, [Id 1] ! 0] ([1] ! 0)) anchor (Id 2)"
    using split_graph_cut by simp
  show ?thesis
    by (rule unreachable_bin_center_raises_key_error
          [OF wf nn af _ split_graph_setup _ _ cut]) simp_all
qed

end
